theory Spec2Isabelle
  imports Main "HOL-Library.Sublist"
begin

section \<open>The release script \<^verbatim>\<open>release.py\<close>: data model\<close>

text \<open>
  The script builds one binary per target with the Go toolchain, optionally compresses it
  with UPX, and packs it with the configuration file, the readme and the web assets into a
  zip archive.  This theory embeds \<^verbatim>\<open>go_build\<close> and the configuration
  constants above it.  Python strings are \<^typ>\<open>string\<close>; the process environment is
  a map from variable names to values; everything the script does to the outside world
  (files, log lines, exit statuses of the external tools) is explicit state.

  The model takes a POSIX host (\<^verbatim>\<open>os.path\<close> is \<^verbatim>\<open>posixpath\<close>), a file system
  that nothing else changes while the script runs, and a logger and an
  \<^verbatim>\<open>os.remove\<close> that do not raise.  The exceptions it follows are those of the two
  \<^verbatim>\<open>subprocess.check_call\<close>s, of the archive (opening, writing, closing) and of
  \<^verbatim>\<open>os.path.relpath\<close>.
\<close>

subsection \<open>Configuration constants\<close>

definition PROJECT_NAME :: string where
  "PROJECT_NAME = ''mosdns-log''"

definition ENTRY_POINT :: string where
  "ENTRY_POINT = ''../main.go''"

definition CONFIG_FILE :: string where
  "CONFIG_FILE = ''../config.yaml''"

definition README_FILE :: string where
  "README_FILE = ''../README.md''"

definition WEB_DIR :: string where
  "WEB_DIR = ''../web''"

text \<open>A target is a list of (variable, value) pairs; the source writes each pair as a
  two-element list and reads it as \<^verbatim>\<open>pairs[0]\<close>, \<^verbatim>\<open>pairs[1]\<close>.\<close>

type_synonym target_spec = "(string \<times> string) list"

type_synonym environ = "string \<rightharpoonup> string"

definition envs :: "target_spec list" where
  "envs = [[(''GOOS'', ''linux''), (''GOARCH'', ''amd64''), (''GOAMD64'', ''v3'')]]"

subsection \<open>Python string operations used by the script\<close>

text \<open>\<^verbatim>\<open>s.endswith(suf)\<close>\<close>

definition endswith :: "string \<Rightarrow> string \<Rightarrow> bool" where
  "endswith s suf = suffix suf s"

text \<open>\<^verbatim>\<open>s.replace(old, new)\<close>: every non-overlapping occurrence of \<open>old\<close>, scanning
  from the left, is replaced.  An empty \<open>old\<close> matches before every character and at the
  end, as in Python.\<close>

function replace :: "string \<Rightarrow> string \<Rightarrow> string \<Rightarrow> string" where
  "replace [] old new = (if old = [] then new else [])"
| "replace (c # cs) old new =
     (if old = [] then new @ c # replace cs old new
      else if prefix old (c # cs) then new @ replace (drop (length old) (c # cs)) old new
      else c # replace cs old new)"
  by pat_completeness auto
termination
  by (relation "measure (\<lambda>(s, old, new). length s)") auto

text \<open>\<^verbatim>\<open>sub in s\<close> on strings: \<open>sub\<close> occurs in \<open>s\<close> as a contiguous substring.\<close>

fun contains :: "string \<Rightarrow> string \<Rightarrow> bool" where
  "contains [] sub = (sub = [])"
| "contains (c # cs) sub = (prefix sub (c # cs) \<or> contains cs sub)"

section \<open>Target resolver: the names computed at the head of the loop body\<close>

text \<open>
  The inner loop \<^verbatim>\<open>for pairs in env\<close> updates two variables: the copy \<open>os_env\<close> of the
  process environment and the name \<open>s\<close>.
\<close>

fun name_loop :: "environ \<times> string \<Rightarrow> target_spec \<Rightarrow> environ \<times> string" where
  "name_loop (os_env, s) [] = (os_env, s)"
| "name_loop (os_env, s) ((k, v) # pairs) =
     name_loop
       (os_env(k \<mapsto> v),
        if k = ''GOOS'' \<or> k = ''GOARCH'' then s @ ''-'' @ v
        else if k = ''GOAMD64'' then s @ ''-v3''
        else s)
       pairs"

definition target_env :: "environ \<Rightarrow> target_spec \<Rightarrow> environ" where
  "target_env environ env = fst (name_loop (environ, PROJECT_NAME) env)"

definition name_stem :: "environ \<Rightarrow> target_spec \<Rightarrow> string" where
  "name_stem environ env = snd (name_loop (environ, PROJECT_NAME) env)"

text \<open>\<open>s\<close> after the Windows suffix (source lines 48-49).\<close>

definition suffixed_name :: "environ \<Rightarrow> target_spec \<Rightarrow> string" where
  "suffixed_name environ env =
     (if target_env environ env ''GOOS'' = Some ''windows''
      then name_stem environ env @ ''.exe''
      else name_stem environ env)"

definition zip_filename :: "environ \<Rightarrow> target_spec \<Rightarrow> string" where
  "zip_filename environ env =
     (let z = suffixed_name environ env @ ''.zip''
      in if endswith z ''.exe.zip'' then replace z ''.exe.zip'' ''.zip'' else z)"

definition bin_filename :: "environ \<Rightarrow> target_spec \<Rightarrow> string" where
  "bin_filename environ env =
     (if target_env environ env ''GOOS'' = Some ''windows''
      then PROJECT_NAME @ ''.exe''
      else PROJECT_NAME)"

section \<open>Paths: the parts of \<^verbatim>\<open>posixpath\<close> that \<^verbatim>\<open>go_build\<close> calls\<close>

text \<open>\<^verbatim>\<open>path.split('/')\<close> and \<^verbatim>\<open>'/'.join(comps)\<close>.\<close>

fun split_sep :: "string \<Rightarrow> string list" where
  "split_sep [] = [[]]"
| "split_sep (c # cs) =
     (if c = CHR ''/'' then [] # split_sep cs
      else (case split_sep cs of x # xs \<Rightarrow> (c # x) # xs | [] \<Rightarrow> [[c]]))"

fun join_sep :: "string list \<Rightarrow> string" where
  "join_sep [] = []"
| "join_sep [x] = x"
| "join_sep (x # y # ys) = x @ ''/'' @ join_sep (y # ys)"

text \<open>\<^verbatim>\<open>os.path.join(a, b)\<close>\<close>

definition os_path_join :: "string \<Rightarrow> string \<Rightarrow> string" where
  "os_path_join a b =
     (if prefix ''/'' b then b
      else if a = [] \<or> endswith a ''/'' then a @ b
      else a @ ''/'' @ b)"

text \<open>
  \<^verbatim>\<open>os.path.normpath\<close>.  Its loop over the components keeps the list \<open>new_comps\<close>;
  \<open>initial\<close> says whether the path starts with a slash.
\<close>

fun norm_comps :: "bool \<Rightarrow> string list \<Rightarrow> string list \<Rightarrow> string list" where
  "norm_comps initial new_comps [] = new_comps"
| "norm_comps initial new_comps (part # parts) =
     norm_comps initial
       (if part = [] \<or> part = ''.'' then new_comps
        else if part \<noteq> ''..'' \<or> (\<not> initial \<and> new_comps = [])
                \<or> (new_comps \<noteq> [] \<and> last new_comps = ''..'')
        then new_comps @ [part]
        else if new_comps \<noteq> [] then butlast new_comps
        else new_comps)
       parts"

definition initial_slashes :: "string \<Rightarrow> nat" where
  "initial_slashes path =
     (if prefix ''/'' path
      then (if prefix ''//'' path \<and> \<not> prefix ''///'' path then 2 else 1)
      else 0)"

definition normpath :: "string \<Rightarrow> string" where
  "normpath path =
     (if path = [] then ''.''
      else
        let n = initial_slashes path;
            comps = norm_comps (n \<noteq> 0) [] (split_sep path);
            p = replicate n (CHR ''/'') @ join_sep comps
        in if p = [] then ''.'' else p)"

text \<open>\<^verbatim>\<open>os.path.abspath\<close>, with the process's working directory as a parameter
  (\<^verbatim>\<open>os.getcwd()\<close> in the library).\<close>

definition abspath :: "string \<Rightarrow> string \<Rightarrow> string" where
  "abspath cwd path =
     normpath (if prefix ''/'' path then path else os_path_join cwd path)"

datatype exn = CalledProcessError int | OSError | ValueError

text \<open>\<^verbatim>\<open>os.path.commonprefix\<close> of two component lists, and
  \<^verbatim>\<open>os.path.relpath(path, start)\<close>, which raises \<open>ValueError\<close> on an empty path.\<close>

fun commonprefix :: "string list \<Rightarrow> string list \<Rightarrow> string list" where
  "commonprefix (x # xs) (y # ys) = (if x = y then x # commonprefix xs ys else [])"
| "commonprefix _ _ = []"

definition relpath :: "string \<Rightarrow> string \<Rightarrow> string \<Rightarrow> exn + string" where
  "relpath cwd path start =
     (if path = [] then Inl ValueError
      else
        let start_list = filter (\<lambda>x. x \<noteq> []) (split_sep (abspath cwd start));
            path_list = filter (\<lambda>x. x \<noteq> []) (split_sep (abspath cwd path));
            i = length (commonprefix start_list path_list);
            rel_list = replicate (length start_list - i) ''..'' @ drop i path_list
        in if rel_list = [] then Inr ''.''
           else Inr (foldl os_path_join (hd rel_list) (tl rel_list)))"

section \<open>The outside world\<close>

subsection \<open>File system\<close>

text \<open>
  A directory tree as \<^verbatim>\<open>os.walk\<close> sees it: a \<open>File\<close> is any entry that is not a
  directory.
\<close>

datatype dirent = File string | Dir string "dirent list"

datatype content = Plain | Executable bool | Archive "string list"

datatype level = INFO | WARNING | ERROR

datatype message =
    Start
  | ConfigMissing
  | Building string "string option" "string option"
  | Compressing
  | UpxFailed
  | WebMissing
  | Success string
  | BuildFailed exn
  | UnknownError exn

text \<open>
  The state the script reads and writes.  \<open>files\<close> holds the non-directory files, keyed by
  the path string the script uses for them (the binary and the archive in the working
  directory, the configuration file and the readme one level up); two different path
  strings are taken to name different files.  For an \<open>Executable\<close> the flag says whether
  UPX has compressed it; for an \<open>Archive\<close> the list holds the entry names in the order they
  were written.  \<open>web_tree\<close> is the content of the directory at \<open>WEB_DIR\<close>, \<open>None\<close> when
  there is no such directory; other directories are not modelled.  \<open>log\<close> collects the
  records handed to the logger.
\<close>

record state =
  files :: "string \<rightharpoonup> content"
  web_tree :: "dirent list option"
  log :: "(level \<times> message) list"

definition log_msg :: "level \<Rightarrow> message \<Rightarrow> state \<Rightarrow> state" where
  "log_msg lvl m st = st\<lparr>log := log st @ [(lvl, m)]\<rparr>"

text \<open>\<^verbatim>\<open>os.path.exists\<close>\<close>

definition path_exists :: "state \<Rightarrow> string \<Rightarrow> bool" where
  "path_exists st p \<longleftrightarrow> files st p \<noteq> None \<or> (p = WEB_DIR \<and> web_tree st \<noteq> None)"

text \<open>
  \<^verbatim>\<open>os.walk(top)\<close>, top-down: one triple (root, directory names, file names) for the
  directory itself, then the triples of each subdirectory in turn.
\<close>

fun os_walk :: "string \<Rightarrow> dirent list \<Rightarrow> (string \<times> string list \<times> string list) list" where
  "os_walk dir ents =
     (dir, [d. Dir d sub \<leftarrow> ents], [f. File f \<leftarrow> ents])
     # concat (map (\<lambda>e. case e of Dir d sub \<Rightarrow> os_walk (os_path_join dir d) sub
                                 | File f \<Rightarrow> []) ents)"

declare os_walk.simps [simp del]

text \<open>\<^verbatim>\<open>os.walk(WEB_DIR)\<close> on the state: nothing when the path is not a directory.\<close>

definition walk_web :: "state \<Rightarrow> (string \<times> string list \<times> string list) list" where
  "walk_web st = (case web_tree st of None \<Rightarrow> [] | Some ents \<Rightarrow> os_walk WEB_DIR ents)"

subsection \<open>External tools and input/output faults\<close>

text \<open>
  What the script cannot decide itself, for one target: \<open>shell_status cmd env\<close> is the exit
  status of the shell that \<^verbatim>\<open>subprocess.check_call(cmd, shell=True, env=env)\<close> runs
  (127 when the tool is not installed); \<open>open_raises\<close>, \<open>write_raises path\<close> and
  \<open>close_raises\<close> say whether opening the archive, \<^verbatim>\<open>zf.write(path, ...)\<close> and closing
  the archive raise \<open>OSError\<close>.
\<close>

record outcome =
  shell_status :: "string \<Rightarrow> environ \<Rightarrow> int"
  open_raises :: bool
  write_raises :: "string \<Rightarrow> bool"
  close_raises :: bool

text \<open>A statement of the script: it may raise, and it leaves a state either way.\<close>

type_synonym stmt = "state \<Rightarrow> exn option \<times> state"

text \<open>Sequencing: the second statement runs only when the first did not raise.\<close>

definition then_do :: "stmt \<Rightarrow> stmt \<Rightarrow> stmt" where
  "then_do f g st = (case f st of (Some e, st') \<Rightarrow> (Some e, st') | (None, st') \<Rightarrow> g st')"

text \<open>\<^verbatim>\<open>subprocess.check_call\<close>\<close>

definition check_call :: "outcome \<Rightarrow> string \<Rightarrow> environ \<Rightarrow> exn option" where
  "check_call oc cmd env =
     (if shell_status oc cmd env = 0 then None
      else Some (CalledProcessError (shell_status oc cmd env)))"

definition go_cmd :: "string \<Rightarrow> string" where
  "go_cmd bin =
     ''go build -ldflags '' @ [CHR 0x22] @ ''-s -w'' @ [CHR 0x22] @ '' -trimpath -o ''
     @ bin @ '' '' @ ENTRY_POINT"

definition upx_cmd :: "string \<Rightarrow> string" where
  "upx_cmd bin = ''upx -9 -q '' @ bin"

text \<open>
  The two tools are external: of the toolchain the model takes that a zero exit status
  leaves the binary at the \<^verbatim>\<open>-o\<close> path and a non-zero one leaves the directory as it
  was, of UPX that it compresses the binary in place or leaves it alone.
\<close>

definition run_go :: "outcome \<Rightarrow> environ \<Rightarrow> string \<Rightarrow> stmt" where
  "run_go oc os_env bin st =
     (case check_call oc (go_cmd bin) os_env of
        Some e \<Rightarrow> (Some e, st)
      | None \<Rightarrow> (None, st\<lparr>files := (files st)(bin \<mapsto> Executable False)\<rparr>))"

definition run_upx :: "outcome \<Rightarrow> environ \<Rightarrow> string \<Rightarrow> stmt" where
  "run_upx oc environ bin st =
     (case check_call oc (upx_cmd bin) environ of
        Some e \<Rightarrow> (Some e, st)
      | None \<Rightarrow> (None, st\<lparr>files := (files st)(bin \<mapsto> Executable True)\<rparr>))"

subsection \<open>The archive\<close>

text \<open>
  \<^verbatim>\<open>zipfile.ZipFile(zipf, mode='w')\<close> creates or truncates the file; \<^verbatim>\<open>zf.write(path,
  arcname)\<close> appends one entry.  Every path the script hands to \<^verbatim>\<open>zf.write\<close> was just
  built, just found by \<^verbatim>\<open>os.path.exists\<close> or just listed by \<^verbatim>\<open>os.walk\<close>; a file that
  cannot be read all the same is a \<open>write_raises\<close>.  The library stores the entry under
  the normalised \<open>arcname\<close>; the names the script passes (a bare file name, or a result of
  \<^verbatim>\<open>os.path.relpath\<close>) are normalised already.
\<close>

definition zf_open :: "outcome \<Rightarrow> string \<Rightarrow> stmt" where
  "zf_open oc zipf st =
     (if open_raises oc then (Some OSError, st)
      else (None, st\<lparr>files := (files st)(zipf \<mapsto> Archive [])\<rparr>))"

definition zf_entries :: "state \<Rightarrow> string \<Rightarrow> string list" where
  "zf_entries st zipf = (case files st zipf of Some (Archive es) \<Rightarrow> es | _ \<Rightarrow> [])"

definition zf_write :: "outcome \<Rightarrow> string \<Rightarrow> string \<Rightarrow> string \<Rightarrow> stmt" where
  "zf_write oc zipf path arcname st =
     (if write_raises oc path then (Some OSError, st)
      else (None, st\<lparr>files := (files st)(zipf \<mapsto> Archive (zf_entries st zipf @ [arcname]))\<rparr>))"

section \<open>Archive assembler\<close>

text \<open>The inner loop \<^verbatim>\<open>for file in files\<close> (source lines 94-100).\<close>

fun write_files :: "string \<Rightarrow> outcome \<Rightarrow> string \<Rightarrow> string \<Rightarrow> string list \<Rightarrow> stmt" where
  "write_files cwd oc zipf root [] st = (None, st)"
| "write_files cwd oc zipf root (file # rest) st =
     (let file_path = os_path_join root file
      in case relpath cwd file_path ''..'' of
           Inl e \<Rightarrow> (Some e, st)
         | Inr archive_path \<Rightarrow>
             then_do (zf_write oc zipf file_path archive_path)
                     (write_files cwd oc zipf root rest) st)"

text \<open>The outer loop \<^verbatim>\<open>for root, dirs, files in os.walk(WEB_DIR)\<close>.\<close>

fun write_walk ::
  "string \<Rightarrow> outcome \<Rightarrow> string \<Rightarrow> (string \<times> string list \<times> string list) list \<Rightarrow> stmt" where
  "write_walk cwd oc zipf [] st = (None, st)"
| "write_walk cwd oc zipf ((root, dirs, fs) # rest) st =
     then_do (write_files cwd oc zipf root fs) (write_walk cwd oc zipf rest) st"

text \<open>The body of the \<^verbatim>\<open>with\<close> statement (source lines 80-102).\<close>

definition archive_body :: "string \<Rightarrow> outcome \<Rightarrow> string \<Rightarrow> string \<Rightarrow> stmt" where
  "archive_body cwd oc bin zipf =
     then_do (zf_write oc zipf bin bin)
    (then_do (\<lambda>st. if path_exists st CONFIG_FILE
                    then zf_write oc zipf CONFIG_FILE ''config.yaml'' st
                    else (None, st))
    (then_do (\<lambda>st. if path_exists st README_FILE
                    then zf_write oc zipf README_FILE ''README.md'' st
                    else (None, st))
             (\<lambda>st. if path_exists st WEB_DIR
                    then write_walk cwd oc zipf (walk_web st) st
                    else (None, log_msg WARNING WebMissing st))))"

text \<open>
  The \<^verbatim>\<open>with\<close> statement: the archive is closed whether or not the body raised, and
  an exception of the body or of the closing leaves the statement.
\<close>

definition make_archive :: "string \<Rightarrow> outcome \<Rightarrow> string \<Rightarrow> string \<Rightarrow> stmt" where
  "make_archive cwd oc bin zipf st =
     (case zf_open oc zipf st of
        (Some e, st') \<Rightarrow> (Some e, st')
      | (None, st') \<Rightarrow>
          (case archive_body cwd oc bin zipf st' of
             (r, st'') \<Rightarrow> (if close_raises oc then Some OSError else r, st'')))"

text \<open>Source lines 105-106.\<close>

definition cleanup :: "string \<Rightarrow> stmt" where
  "cleanup bin st =
     (None, if path_exists st bin then st\<lparr>files := (files st)(bin := None)\<rparr> else st)"

section \<open>Build invoker and the loop over the targets\<close>

text \<open>The optional UPX step with its own handler (source lines 70-76).\<close>

definition upx_step :: "bool \<Rightarrow> outcome \<Rightarrow> environ \<Rightarrow> string \<Rightarrow> stmt" where
  "upx_step args_upx oc environ bin st =
     (if args_upx
      then (case run_upx oc environ bin (log_msg INFO Compressing st) of
              (Some e, st') \<Rightarrow> (None, log_msg ERROR UpxFailed st')
            | (None, st') \<Rightarrow> (None, st'))
      else (None, st))"

text \<open>The body of the \<^verbatim>\<open>try\<close> statement (source lines 62-108).\<close>

definition try_body ::
  "bool \<Rightarrow> string \<Rightarrow> environ \<Rightarrow> outcome \<Rightarrow> target_spec \<Rightarrow> stmt" where
  "try_body args_upx cwd environ oc env =
     (let os_env = target_env environ env;
          zipf = zip_filename environ env;
          bin = bin_filename environ env
      in then_do (run_go oc os_env bin)
        (then_do (upx_step args_upx oc environ bin)
        (then_do (make_archive cwd oc bin zipf)
        (then_do (cleanup bin)
                 (\<lambda>st. (None, log_msg INFO (Success zipf) st))))))"

text \<open>One iteration of \<^verbatim>\<open>for env in envs\<close>: the log line, the \<^verbatim>\<open>try\<close> statement and
  its two handlers.\<close>

definition build_target ::
  "bool \<Rightarrow> string \<Rightarrow> environ \<Rightarrow> outcome \<Rightarrow> target_spec \<Rightarrow> state \<Rightarrow> state" where
  "build_target args_upx cwd environ oc env st =
     (let os_env = target_env environ env;
          zipf = zip_filename environ env
      in case try_body args_upx cwd environ oc env
                (log_msg INFO (Building zipf (os_env ''GOOS'') (os_env ''GOARCH'')) st) of
           (None, st') \<Rightarrow> st'
         | (Some (CalledProcessError rc), st') \<Rightarrow>
             log_msg ERROR (BuildFailed (CalledProcessError rc)) st'
         | (Some e, st') \<Rightarrow> log_msg ERROR (UnknownError e) st')"

text \<open>
  The loop over the targets; \<open>world i\<close> is what the outside world does during the
  iteration for the target at position \<open>i\<close>.
\<close>

fun build_loop ::
  "bool \<Rightarrow> string \<Rightarrow> environ \<Rightarrow> (nat \<Rightarrow> outcome) \<Rightarrow> nat \<Rightarrow> target_spec list \<Rightarrow> state \<Rightarrow> state"
  where
  "build_loop args_upx cwd environ world i [] st = st"
| "build_loop args_upx cwd environ world i (env # rest) st =
     build_loop args_upx cwd environ world (Suc i) rest
       (build_target args_upx cwd environ (world i) env st)"

definition go_build_on ::
  "target_spec list \<Rightarrow> bool \<Rightarrow> string \<Rightarrow> environ \<Rightarrow> (nat \<Rightarrow> outcome) \<Rightarrow> state \<Rightarrow> state" where
  "go_build_on targets args_upx cwd environ world st =
     (let st1 = log_msg INFO Start st;
          st2 = (if \<not> path_exists st1 CONFIG_FILE then log_msg WARNING ConfigMissing st1
                 else st1)
      in build_loop args_upx cwd environ world 0 targets st2)"

text \<open>\<^verbatim>\<open>go_build()\<close> itself reads the global list \<open>envs\<close>.\<close>

definition go_build :: "bool \<Rightarrow> string \<Rightarrow> environ \<Rightarrow> (nat \<Rightarrow> outcome) \<Rightarrow> state \<Rightarrow> state" where
  "go_build = go_build_on envs"

section \<open>Auxiliary notions for the statements\<close>

text \<open>What the loop over the pairs appends to the project name.\<close>

definition name_suffix :: "target_spec \<Rightarrow> string" where
  "name_suffix env = snd (name_loop (Map.empty, []) env)"

text \<open>
  Names a directory listing can hold, and trees all of whose names are such: a listing
  never has an empty name, \<open>.\<close>, \<open>..\<close> or a name with a slash.
\<close>

definition valid_name :: "string \<Rightarrow> bool" where
  "valid_name n \<longleftrightarrow> n \<noteq> [] \<and> n \<noteq> ''.'' \<and> n \<noteq> ''..'' \<and> CHR ''/'' \<notin> set n"

fun wf_dirent :: "dirent \<Rightarrow> bool" where
  "wf_dirent (File n) = valid_name n"
| "wf_dirent (Dir n sub) = (valid_name n \<and> (\<forall>e\<in>set sub. wf_dirent e))"

text \<open>The path \<open>p\<close> lies below the asset directory, along the directory names \<open>ns\<close>.\<close>

definition under_web :: "string \<Rightarrow> string list \<Rightarrow> bool" where
  "under_web p ns \<longleftrightarrow> (\<forall>n\<in>set ns. valid_name n) \<and> p = ''../'' @ join_sep (''web'' # ns)"

text \<open>
  The exit statuses of the two tools for a target, the absence of input/output faults, the
  log line that announces a target, and the exception (if any) that reaches the handlers
  of the \<^verbatim>\<open>try\<close> statement.
\<close>

definition toolchain_status :: "outcome \<Rightarrow> environ \<Rightarrow> target_spec \<Rightarrow> int" where
  "toolchain_status oc environ env =
     shell_status oc (go_cmd (bin_filename environ env)) (target_env environ env)"

definition compressor_status :: "outcome \<Rightarrow> environ \<Rightarrow> target_spec \<Rightarrow> int" where
  "compressor_status oc environ env = shell_status oc (upx_cmd (bin_filename environ env)) environ"

definition no_io_fault :: "outcome \<Rightarrow> bool" where
  "no_io_fault oc \<longleftrightarrow> \<not> open_raises oc \<and> (\<forall>p. \<not> write_raises oc p) \<and> \<not> close_raises oc"

definition building_msg :: "environ \<Rightarrow> target_spec \<Rightarrow> level \<times> message" where
  "building_msg environ env =
     (INFO, Building (zip_filename environ env) (target_env environ env ''GOOS'')
              (target_env environ env ''GOARCH''))"

definition target_outcome ::
  "bool \<Rightarrow> string \<Rightarrow> environ \<Rightarrow> outcome \<Rightarrow> target_spec \<Rightarrow> state \<Rightarrow> exn option" where
  "target_outcome args_upx cwd environ oc env st =
     fst (try_body args_upx cwd environ oc env
            (st\<lparr>log := log st @ [building_msg environ env]\<rparr>))"

text \<open>
  What the archive stage may do to the state: it leaves the directory tree and every file
  but the archive alone, and only appends entries to the archive.
\<close>

definition archive_grows :: "string \<Rightarrow> state \<Rightarrow> state \<Rightarrow> bool" where
  "archive_grows zipf st st' \<longleftrightarrow>
     web_tree st' = web_tree st
     \<and> (\<forall>p. p \<noteq> zipf \<longrightarrow> files st' p = files st p)
     \<and> (\<forall>es. files st zipf = Some (Archive es) \<longrightarrow>
              (\<exists>es'. files st' zipf = Some (Archive (es @ es'))))"

text \<open>
  The asset directory of a state is well formed; the paths of the files that the walk over
  it finds, in the order of the walk; and the entry names that a run without faults writes
  to the archive: the binary, the configuration file and the readme when they exist, and
  every walked path without its leading \<open>../\<close>.
\<close>

definition wf_web :: "state \<Rightarrow> bool" where
  "wf_web st = (case web_tree st of None \<Rightarrow> True | Some ents \<Rightarrow> \<forall>e\<in>set ents. wf_dirent e)"

definition walk_paths :: "state \<Rightarrow> string list" where
  "walk_paths st = concat (map (\<lambda>(root, dirs, fs). map (os_path_join root) fs) (walk_web st))"

definition archive_entries :: "string \<Rightarrow> state \<Rightarrow> string list" where
  "archive_entries bin st =
     [bin]
     @ (if path_exists st CONFIG_FILE then [''config.yaml''] else [])
     @ (if path_exists st README_FILE then [''README.md''] else [])
     @ map (drop 3) (walk_paths st)"

text \<open>
  A statement that reads nothing of the log and only appends to it: run on a state, it
  does what it does on the same state with an empty log, with the old log in front.
\<close>

definition with_log :: "(level \<times> message) list \<Rightarrow> exn option \<times> state \<Rightarrow> exn option \<times> state" where
  "with_log l r = (fst r, (snd r)\<lparr>log := l @ log (snd r)\<rparr>)"

definition log_agnostic :: "stmt \<Rightarrow> bool" where
  "log_agnostic f \<longleftrightarrow> (\<forall>st. f st = with_log (log st) (f (st\<lparr>log := []\<rparr>)))"

text \<open>The state in which the archive stage starts, when the toolchain succeeded.\<close>

definition built :: "bool \<Rightarrow> outcome \<Rightarrow> environ \<Rightarrow> target_spec \<Rightarrow> state \<Rightarrow> state" where
  "built args_upx oc environ env st =
     snd (upx_step args_upx oc environ (bin_filename environ env)
            (st\<lparr>files := (files st)(bin_filename environ env \<mapsto> Executable False)\<rparr>))"

subsection \<open>Concrete scenarios\<close>

text \<open>
  The target of \<open>envs\<close>; a project with configuration file, readme and two web assets,
  the same without the configuration file, without the asset directory, and with a
  regular file in the place of the asset directory; and four behaviours of the outside world: all is well, the toolchain fails, UPX is not
  installed, one asset cannot be read.
\<close>

definition linux_target :: target_spec where
  "linux_target = [(''GOOS'', ''linux''), (''GOARCH'', ''amd64''), (''GOAMD64'', ''v3'')]"

definition scenario_state :: state where
  "scenario_state =
     \<lparr>files = [CONFIG_FILE \<mapsto> Plain, README_FILE \<mapsto> Plain],
      web_tree = Some [File ''index.html'', Dir ''css'' [File ''style.css'']],
      log = []\<rparr>"

definition no_config_state :: state where
  "no_config_state = scenario_state\<lparr>files := [README_FILE \<mapsto> Plain]\<rparr>"

definition no_web_state :: state where
  "no_web_state = scenario_state\<lparr>web_tree := None\<rparr>"

definition web_is_file_state :: state where
  "web_is_file_state =
     scenario_state\<lparr>files := [CONFIG_FILE \<mapsto> Plain, README_FILE \<mapsto> Plain,
                               WEB_DIR \<mapsto> Plain],
                     web_tree := None\<rparr>"

definition tools_ok :: outcome where
  "tools_ok = \<lparr>shell_status = (\<lambda>cmd env. 0), open_raises = False,
               write_raises = (\<lambda>path. False), close_raises = False\<rparr>"

definition toolchain_fails :: outcome where
  "toolchain_fails = tools_ok\<lparr>shell_status := (\<lambda>cmd env. 2)\<rparr>"

definition upx_missing :: outcome where
  "upx_missing = tools_ok\<lparr>shell_status := (\<lambda>cmd env. if cmd = upx_cmd PROJECT_NAME then 127 else 0)\<rparr>"

definition unreadable_asset :: outcome where
  "unreadable_asset = tools_ok\<lparr>write_raises := (\<lambda>path. path = ''../web/css/style.css'')\<rparr>"



section \<open>Properties of the computed names\<close>

subsection \<open>Substrings and replacement\<close>

lemma contains_iff: "contains s sub \<longleftrightarrow> (\<exists>p q. s = p @ sub @ q)"
proof (induction s)
  case Nil
  then show ?case by auto
next
  case (Cons c cs)
  show ?case
  proof
    assume "contains (c # cs) sub"
    then consider "prefix sub (c # cs)" | "contains cs sub" by auto
    then show "\<exists>p q. c # cs = p @ sub @ q"
    proof cases
      case 1
      then obtain q where "c # cs = sub @ q" by (auto simp: prefix_def)
      then have "c # cs = [] @ sub @ q" by simp
      then show ?thesis by blast
    next
      case 2
      with Cons obtain p q where "cs = p @ sub @ q" by auto
      then have "c # cs = (c # p) @ sub @ q" by simp
      then show ?thesis by blast
    qed
  next
    assume "\<exists>p q. c # cs = p @ sub @ q"
    then obtain p q where pq: "c # cs = p @ sub @ q" by auto
    show "contains (c # cs) sub"
    proof (cases p)
      case Nil
      with pq have "prefix sub (c # cs)" by (simp add: prefix_def)
      then show ?thesis by simp
    next
      case (Cons a p')
      with pq have "cs = p' @ sub @ q" by simp
      with Cons.IH show ?thesis by auto
    qed
  qed
qed

lemma contains_appendI1: "contains a sub \<Longrightarrow> contains (a @ b) sub"
  unfolding contains_iff by (metis append.assoc)

lemma contains_appendI2: "contains b sub \<Longrightarrow> contains (a @ b) sub"
  unfolding contains_iff by (metis append.assoc)

lemma prefix_before_sep:
  "prefix sub (u @ c # b) \<Longrightarrow> c \<notin> set sub \<Longrightarrow> prefix sub u"
  by (auto simp: prefix_append prefix_Cons)

lemma contains_sep:
  "contains (a @ c # b) sub \<Longrightarrow> c \<notin> set sub \<Longrightarrow> contains a sub \<or> contains b sub"
proof (induction a)
  case Nil
  then show ?case by (cases sub) (auto simp: )
next
  case (Cons x a)
  from Cons.prems(1) consider "prefix sub ((x # a) @ c # b)" | "contains (a @ c # b) sub"
    by auto
  then show ?case
  proof cases
    case 1
    then have "prefix sub (x # a)" using Cons.prems(2) by (rule prefix_before_sep)
    then show ?thesis by simp
  next
    case 2
    with Cons show ?thesis by auto
  qed
qed

lemma replace_nodot:
  "CHR ''.'' \<notin> set p \<Longrightarrow> replace (p @ r) ''.exe.zip'' new = p @ replace r ''.exe.zip'' new"
  by (induction p) auto

lemma replace_match:
  "old \<noteq> [] \<Longrightarrow> replace (old @ r) old new = new @ replace r old new"
  by (cases old) simp_all

lemma replace_skip:
  "old \<noteq> [] \<Longrightarrow> \<not> prefix old (c # cs) \<Longrightarrow>
   replace (c # cs) old new = c # replace cs old new"
  by simp

lemma suffix_zip_replace:
  "suffix ''.zip'' x \<Longrightarrow> suffix ''.zip'' (replace x ''.exe.zip'' ''.zip'')"
proof (induction "length x" arbitrary: x rule: less_induct)
  case less
  show ?case
  proof (cases "prefix ''.exe.zip'' x")
    case True
    then obtain r where r: "x = ''.exe.zip'' @ r" by (auto simp: prefix_def)
    have res: "replace x ''.exe.zip'' ''.zip'' = ''.zip'' @ replace r ''.exe.zip'' ''.zip''"
      unfolding r by (rule replace_match) simp
    show ?thesis
    proof (cases "suffix ''.zip'' r")
      case True
      have "length r < length x" using r by simp
      then have "suffix ''.zip'' (replace r ''.exe.zip'' ''.zip'')"
        using True by (rule less.hyps)
      then show ?thesis unfolding res by (rule suffix_appendI)
    next
      case False
      from less.prems r have "suffix ''.zip'' (''.exe.zip'' @ r)" by simp
      with False have "r = []"
        by (auto simp: suffix_append append_eq_Cons_conv Cons_eq_append_conv suffix_Cons)
      then show ?thesis unfolding res by simp
    qed
  next
    case False
    from less.prems obtain c cs where x: "x = c # cs" by (cases x) auto
    have res: "replace x ''.exe.zip'' ''.zip'' = c # replace cs ''.exe.zip'' ''.zip''"
      using False unfolding x by (intro replace_skip) simp_all
    from less.prems x consider "c # cs = ''.zip''" | "suffix ''.zip'' cs"
      by (auto simp: suffix_Cons)
    then show ?thesis
    proof cases
      case 1
      then show ?thesis unfolding x by simp
    next
      case 2
      have "length cs < length x" using x by simp
      then have "suffix ''.zip'' (replace cs ''.exe.zip'' ''.zip'')"
        using 2 by (rule less.hyps)
      then show ?thesis unfolding res by (rule suffix_ConsI)
    qed
  qed
qed

lemma snd_name_loop: "snd (name_loop (e, s) env) = s @ snd (name_loop (e', []) env)"
proof (induction env arbitrary: e s e')
  case Nil
  then show ?case by simp
next
  case (Cons p ps)
  obtain k v where p: "p = (k, v)" by (cases p)
  define t where "t = (if k = ''GOOS'' \<or> k = ''GOARCH'' then ''-'' @ v
                       else if k = ''GOAMD64'' then ''-v3'' else [])"
  have 1: "snd (name_loop (e, s) (p # ps)) = snd (name_loop (e(k \<mapsto> v), s @ t) ps)"
    by (simp add: p t_def)
  have 2: "snd (name_loop (e', []) (p # ps)) = snd (name_loop (e'(k \<mapsto> v), t) ps)"
    by (simp add: p t_def)
  have "snd (name_loop (e(k \<mapsto> v), s @ t) ps) = (s @ t) @ snd (name_loop (e', []) ps)"
    by (rule Cons.IH)
  moreover have "snd (name_loop (e'(k \<mapsto> v), t) ps) = t @ snd (name_loop (e', []) ps)"
    by (rule Cons.IH)
  ultimately show ?case unfolding 1 2 by simp
qed

lemma name_stem_suffix: "name_stem environ env = PROJECT_NAME @ name_suffix env"
  unfolding name_stem_def name_suffix_def by (rule snd_name_loop)

lemma name_suffix_Nil: "name_suffix [] = []"
  by (simp add: name_suffix_def)

lemma name_suffix_Cons:
  "name_suffix ((k, v) # ps) =
     (if k = ''GOOS'' \<or> k = ''GOARCH'' then ''-'' @ v
      else if k = ''GOAMD64'' then ''-v3'' else []) @ name_suffix ps"
proof -
  define t where "t = (if k = ''GOOS'' \<or> k = ''GOARCH'' then ''-'' @ v
                       else if k = ''GOAMD64'' then ''-v3'' else [])"
  have "name_suffix ((k, v) # ps) = snd (name_loop (Map.empty(k \<mapsto> v), t) ps)"
    by (simp add: name_suffix_def t_def)
  also have "\<dots> = t @ snd (name_loop (Map.empty, []) ps)"
    by (rule snd_name_loop)
  finally show ?thesis by (simp add: t_def name_suffix_def)
qed

lemma name_suffix_dash: "name_suffix env = [] \<or> prefix ''-'' (name_suffix env)"
proof (induction env)
  case Nil
  then show ?case by (simp add: name_suffix_Nil)
next
  case (Cons p ps)
  obtain k v where p: "p = (k, v)" by (cases p)
  from Cons show ?case unfolding p name_suffix_Cons by auto
qed

lemma name_suffix_empty_iff:
  "name_suffix env = [] \<longleftrightarrow> (\<forall>p\<in>set env. fst p \<notin> {''GOOS'', ''GOARCH'', ''GOAMD64''})"
proof (induction env)
  case Nil
  then show ?case by (simp add: name_suffix_Nil)
next
  case (Cons p ps)
  obtain k v where p: "p = (k, v)" by (cases p)
  from Cons show ?case unfolding p name_suffix_Cons by auto
qed

lemma PROJECT_NAME_nodot: "CHR ''.'' \<notin> set PROJECT_NAME"
  by (simp add: PROJECT_NAME_def)

lemma exe_prefix_before_dot:
  "prefix ''.exe'' (u @ CHR ''.'' # b) \<Longrightarrow> u \<noteq> [] \<Longrightarrow> prefix ''.exe'' u"
  by (auto simp: prefix_append prefix_Cons Cons_eq_append_conv)

lemma replace_trailing_exe:
  "\<not> contains w ''.exe'' \<Longrightarrow> replace (w @ ''.exe.zip'') ''.exe.zip'' ''.zip'' = w @ ''.zip''"
proof (induction w)
  case Nil
  then show ?case by simp
next
  case (Cons c w)
  from Cons.prems have np: "\<not> prefix ''.exe'' (c # w)" and nc: "\<not> contains w ''.exe''"
    by auto
  have "\<not> prefix ''.exe.zip'' (c # w @ ''.exe.zip'')"
  proof
    assume "prefix ''.exe.zip'' (c # w @ ''.exe.zip'')"
    moreover have "prefix ''.exe'' ''.exe.zip''" by simp
    ultimately have "prefix ''.exe'' ((c # w) @ CHR ''.'' # ''exe.zip'')"
      using prefix_order.trans by fastforce
    then have "prefix ''.exe'' (c # w)" by (rule exe_prefix_before_dot) simp
    with np show False ..
  qed
  then have "replace (c # w @ ''.exe.zip'') ''.exe.zip'' ''.zip''
             = c # replace (w @ ''.exe.zip'') ''.exe.zip'' ''.zip''"
    by (intro replace_skip) simp_all
  with Cons.IH [OF nc] show ?case by simp
qed

lemma no_exe_before_zip:
  "\<not> contains w ''.exe'' \<Longrightarrow> \<not> contains (w @ ''.zip'') ''.exe''"
proof (induction w)
  case Nil
  then show ?case by simp
next
  case (Cons c w)
  from Cons.prems have np: "\<not> prefix ''.exe'' (c # w)" and nc: "\<not> contains w ''.exe''"
    by auto
  have "\<not> prefix ''.exe'' ((c # w) @ CHR ''.'' # ''zip'')"
    using np exe_prefix_before_dot by blast
  with Cons.IH [OF nc] show ?case by simp
qed

lemma no_exe_name_suffix:
  assumes "\<forall>p\<in>set env. fst p \<in> {''GOOS'', ''GOARCH''} \<longrightarrow> \<not> contains (snd p) ''.exe''"
    and "\<not> contains s ''.exe''"
  shows "\<not> contains (s @ name_suffix env) ''.exe''"
  using assms
proof (induction env arbitrary: s)
  case Nil
  then show ?case by (simp add: name_suffix_Nil)
next
  case (Cons p ps)
  obtain k v where p: "p = (k, v)" by (cases p)
  define t where "t = (if k = ''GOOS'' \<or> k = ''GOARCH'' then ''-'' @ v
                       else if k = ''GOAMD64'' then ''-v3'' else [])"
  have "\<not> contains (s @ t) ''.exe''"
  proof (cases "k = ''GOOS'' \<or> k = ''GOARCH''")
    case True
    with Cons.prems(1) p have "\<not> contains v ''.exe''" by auto
    moreover have "CHR ''-'' \<notin> set ''.exe''" by simp
    ultimately have "\<not> contains (s @ CHR ''-'' # v) ''.exe''"
      using Cons.prems(2) contains_sep by blast
    with True show ?thesis by (simp add: t_def)
  next
    case False
    have "\<not> contains ''v3'' ''.exe''" by simp
    moreover have "CHR ''-'' \<notin> set ''.exe''" by simp
    ultimately have "\<not> contains (s @ CHR ''-'' # ''v3'') ''.exe''"
      using Cons.prems(2) contains_sep by blast
    with False Cons.prems(2) show ?thesis by (simp add: t_def)
  qed
  moreover from Cons.prems(1)
  have "\<forall>p\<in>set ps. fst p \<in> {''GOOS'', ''GOARCH''} \<longrightarrow> \<not> contains (snd p) ''.exe''"
    by simp
  ultimately have "\<not> contains ((s @ t) @ name_suffix ps) ''.exe''"
    by (intro Cons.IH)
  then show ?case unfolding p name_suffix_Cons t_def by simp
qed

lemma contains_after:
  "contains (a @ b) sub \<Longrightarrow> sub \<noteq> [] \<Longrightarrow> hd sub \<notin> set a \<Longrightarrow> contains b sub"
proof (induction a)
  case Nil
  then show ?case by simp
next
  case (Cons x a)
  from Cons.prems have "\<not> prefix sub (x # a @ b)"
    by (cases sub) auto
  with Cons show ?case by auto
qed

lemma contains_Cons: "contains cs sub \<Longrightarrow> contains (c # cs) sub"
  by simp

lemma contains_v3_replace:
  "contains x ''-v3'' \<Longrightarrow> contains (replace x ''.exe.zip'' ''.zip'') ''-v3''"
proof (induction "length x" arbitrary: x rule: less_induct)
  case less
  show ?case
  proof (cases "prefix ''.exe.zip'' x")
    case True
    then obtain r where r: "x = ''.exe.zip'' @ r" by (auto simp: prefix_def)
    have res: "replace x ''.exe.zip'' ''.zip'' = ''.zip'' @ replace r ''.exe.zip'' ''.zip''"
      unfolding r by (rule replace_match) simp
    from less.prems have "contains (''.exe.zip'' @ r) ''-v3''" unfolding r .
    then have "contains r ''-v3''" by (rule contains_after) simp_all
    moreover have "length r < length x" using r by simp
    ultimately have "contains (replace r ''.exe.zip'' ''.zip'') ''-v3''"
      using less.hyps by blast
    then show ?thesis unfolding res by (rule contains_appendI2)
  next
    case False
    from less.prems obtain c cs where x: "x = c # cs" by (cases x) auto
    have res: "replace x ''.exe.zip'' ''.zip'' = c # replace cs ''.exe.zip'' ''.zip''"
      using False unfolding x by (intro replace_skip) simp_all
    from less.prems x consider "prefix ''-v3'' (c # cs)" | "contains cs ''-v3''"
      by auto
    then show ?thesis
    proof cases
      case 1
      then obtain r where r: "c # cs = ''-v3'' @ r" by (auto simp: prefix_def)
      have "replace (''-v3'' @ r) ''.exe.zip'' ''.zip'' = ''-v3'' @ replace r ''.exe.zip'' ''.zip''"
        by (rule replace_nodot) simp
      then have "prefix ''-v3'' (replace x ''.exe.zip'' ''.zip'')"
        unfolding x r by (simp only: prefixI)
      then show ?thesis by (cases "replace x ''.exe.zip'' ''.zip''") simp_all
    next
      case 2
      have "length cs < length x" using x by simp
      then have "contains (replace cs ''.exe.zip'' ''.zip'') ''-v3''"
        using 2 by (rule less.hyps)
      then show ?thesis unfolding res by (rule contains_Cons)
    qed
  qed
qed

lemma contains_v3_name_suffix:
  "(''GOAMD64'', v) \<in> set env \<Longrightarrow> contains (name_suffix env) ''-v3''"
proof (induction env)
  case Nil
  then show ?case by simp
next
  case (Cons p ps)
  obtain k w where p: "p = (k, w)" by (cases p)
  show ?case
  proof (cases "k = ''GOAMD64''")
    case True
    then have "name_suffix (p # ps) = ''-v3'' @ name_suffix ps"
      unfolding p name_suffix_Cons by simp
    then show ?thesis by simp
  next
    case False
    with Cons.prems p have "(''GOAMD64'', v) \<in> set ps" by auto
    then have "contains (name_suffix ps) ''-v3''" by (rule Cons.IH)
    then show ?thesis unfolding p name_suffix_Cons by (rule contains_appendI2)
  qed
qed

subsection \<open>The environment of a target\<close>

text \<open>
  The environment of a target: a variable has the value of the last pair of the spec that
  sets it, and the inherited value when no pair does.
\<close>

lemma fst_name_loop:
  "fst (name_loop (e, s) env) k
   = (case filter (\<lambda>p. fst p = k) env of [] \<Rightarrow> e k | p # ps \<Rightarrow> Some (snd (last (p # ps))))"
proof (induction env arbitrary: e s)
  case Nil
  then show ?case by simp
next
  case (Cons p ps)
  obtain k' v where p: "p = (k', v)" by (cases p)
  show ?case
    unfolding p by (simp add: Cons.IH split: list.splits)
qed

lemma target_env_resolved:
  "target_env environ env k
   = (case filter (\<lambda>p. fst p = k) env of
        [] \<Rightarrow> environ k
      | p # ps \<Rightarrow> Some (snd (last (p # ps))))"
  unfolding target_env_def by (rule fst_name_loop)

lemma target_env_not_windows:
  assumes "(''GOOS'', ''windows'') \<notin> set env" and "environ ''GOOS'' \<noteq> Some ''windows''"
  shows "target_env environ env ''GOOS'' \<noteq> Some ''windows''"
proof (cases "filter (\<lambda>p. fst p = ''GOOS'') env")
  case Nil
  with assms(2) show ?thesis by (simp add: target_env_resolved)
next
  case (Cons p ps)
  then have "last (p # ps) \<in> set (filter (\<lambda>p. fst p = ''GOOS'') env)"
    by (metis last_in_set list.distinct(1))
  then have "last (p # ps) \<in> set env" and "fst (last (p # ps)) = ''GOOS''" by auto
  with assms(1) have "snd (last (p # ps)) \<noteq> ''windows''"
    by (metis prod.collapse)
  with Cons show ?thesis by (simp add: target_env_resolved)
qed

subsection \<open>The claims about the names\<close>

text \<open>
  Claim C1, as amended.  When the resolved operating system of a target is not
  \<open>windows\<close>, the binary filename is the bare project name, and the archive filename is
  the binary filename, then a platform suffix \<open>t\<close>, then \<open>.zip\<close>; the suffix is empty, so
  that the binary filename equals the archive filename without its \<open>.zip\<close>, exactly when
  the spec has no \<open>GOOS\<close>, \<open>GOARCH\<close> or \<open>GOAMD64\<close> pair.
\<close>

theorem archive_stem_extends_bin_filename:
  assumes nw: "target_env environ env ''GOOS'' \<noteq> Some ''windows''"
  shows "bin_filename environ env = PROJECT_NAME
         \<and> (\<exists>t. zip_filename environ env = bin_filename environ env @ t @ ''.zip''
                \<and> (t = [] \<longleftrightarrow>
                     (\<forall>p\<in>set env. fst p \<notin> {''GOOS'', ''GOARCH'', ''GOAMD64''})))"
proof -
  have bin: "bin_filename environ env = PROJECT_NAME"
    using nw by (simp add: bin_filename_def)
  define sfx where "sfx = name_suffix env"
  define z where "z = suffixed_name environ env @ ''.zip''"
  have z: "z = PROJECT_NAME @ sfx @ ''.zip''"
    using nw by (simp add: z_def suffixed_name_def name_stem_suffix sfx_def)
  define w where "w = (if endswith z ''.exe.zip''
                       then replace (sfx @ ''.zip'') ''.exe.zip'' ''.zip''
                       else sfx @ ''.zip'')"
  have "replace z ''.exe.zip'' ''.zip'' = PROJECT_NAME @ replace (sfx @ ''.zip'') ''.exe.zip'' ''.zip''"
    unfolding z using PROJECT_NAME_nodot by (rule replace_nodot)
  then have zipw: "zip_filename environ env = PROJECT_NAME @ w"
    by (simp add: zip_filename_def Let_def z_def [symmetric] w_def z)
  have "suffix ''.zip'' (sfx @ ''.zip'')" by (simp add: suffix_def)
  then have "suffix ''.zip'' w"
    unfolding w_def by (simp add: suffix_zip_replace)
  then obtain t where t: "w = t @ ''.zip''" by (auto simp: suffix_def)
  have "t = [] \<longleftrightarrow> sfx = []"
  proof
    assume "sfx = []"
    then have "z = ''mosdns-log.zip''" by (simp add: z PROJECT_NAME_def)
    then have "\<not> endswith z ''.exe.zip''" by (simp add: endswith_def suffix_def)
    with \<open>sfx = []\<close> have "w = ''.zip''" by (simp add: w_def)
    with t show "t = []" by simp
  next
    assume "t = []"
    show "sfx = []"
    proof (rule ccontr)
      assume "sfx \<noteq> []"
      with name_suffix_dash [of env] obtain r where r: "sfx = CHR ''-'' # r"
        by (auto simp: sfx_def prefix_def)
      have "replace ((CHR ''-'' # r) @ ''.zip'') ''.exe.zip'' ''.zip''
            = CHR ''-'' # replace (r @ ''.zip'') ''.exe.zip'' ''.zip''"
        by simp
      then have "prefix ''-'' w" by (simp add: w_def r)
      with t \<open>t = []\<close> show False by simp
    qed
  qed
  then have "t = [] \<longleftrightarrow> (\<forall>p\<in>set env. fst p \<notin> {''GOOS'', ''GOARCH'', ''GOAMD64''})"
    by (simp only: sfx_def name_suffix_empty_iff)
  with bin zipw t show ?thesis by auto
qed

theorem archive_stem_extends_bin_filename_witness:
  "target_env Map.empty [(''GOOS'', ''linux''), (''GOARCH'', ''amd64''), (''GOAMD64'', ''v3'')] ''GOOS''
     \<noteq> Some ''windows''
   \<and> bin_filename Map.empty [(''GOOS'', ''linux''), (''GOARCH'', ''amd64''), (''GOAMD64'', ''v3'')]
     = PROJECT_NAME
   \<and> (\<exists>t. zip_filename Map.empty
              [(''GOOS'', ''linux''), (''GOARCH'', ''amd64''), (''GOAMD64'', ''v3'')]
            = bin_filename Map.empty
                [(''GOOS'', ''linux''), (''GOARCH'', ''amd64''), (''GOAMD64'', ''v3'')]
              @ t @ ''.zip''
            \<and> t \<noteq> [])"
proof -
  have h: "target_env Map.empty
             [(''GOOS'', ''linux''), (''GOARCH'', ''amd64''), (''GOAMD64'', ''v3'')] ''GOOS''
           \<noteq> Some ''windows''"
    by (simp add: target_env_def)
  from archive_stem_extends_bin_filename [OF h] h show ?thesis by auto
qed

text \<open>The claim as stated fails at the one target of \<open>envs\<close>: the binary carries the bare
  project name, the archive the platform suffix.\<close>

theorem bin_filename_differs_from_archive_stem:
  "(''GOOS'', ''windows'') \<notin> set [(''GOOS'', ''linux''), (''GOARCH'', ''amd64''), (''GOAMD64'', ''v3'')]
   \<and> zip_filename Map.empty [(''GOOS'', ''linux''), (''GOARCH'', ''amd64''), (''GOAMD64'', ''v3'')]
     = ''mosdns-log-linux-amd64-v3'' @ ''.zip''
   \<and> bin_filename Map.empty [(''GOOS'', ''linux''), (''GOARCH'', ''amd64''), (''GOAMD64'', ''v3'')]
     = ''mosdns-log''
   \<and> ''mosdns-log'' \<noteq> ''mosdns-log-linux-amd64-v3''"
  by (simp add: zip_filename_def bin_filename_def suffixed_name_def target_env_def
      name_stem_def PROJECT_NAME_def endswith_def suffix_def)

text \<open>
  Claim C2, as amended.  When the resolved operating system of a target (the value of
  \<open>GOOS\<close> in the target's environment, that is the last \<open>GOOS\<close> pair of the spec or,
  without one, the value inherited from the process environment) is \<open>windows\<close>, and no
  \<open>GOOS\<close> or \<open>GOARCH\<close> value of the spec contains \<open>.exe\<close>, then the binary filename ends
  in \<open>.exe\<close> and the archive filename contains no \<open>.exe\<close>.
\<close>

theorem windows_names:
  assumes win: "target_env environ env ''GOOS'' = Some ''windows''"
    and vals: "\<forall>p\<in>set env. fst p \<in> {''GOOS'', ''GOARCH''} \<longrightarrow> \<not> contains (snd p) ''.exe''"
  shows "endswith (bin_filename environ env) ''.exe''
         \<and> \<not> contains (zip_filename environ env) ''.exe''"
proof
  show "endswith (bin_filename environ env) ''.exe''"
    using win by (simp add: bin_filename_def endswith_def suffix_def)
next
  have "\<not> contains PROJECT_NAME ''.exe''" by (simp add: PROJECT_NAME_def)
  with vals have stem: "\<not> contains (name_stem environ env) ''.exe''"
    unfolding name_stem_suffix by (rule no_exe_name_suffix)
  have "suffix ''.exe.zip'' (name_stem environ env @ ''.exe.zip'')"
    by (simp add: suffix_def)
  then have "zip_filename environ env =
        replace (name_stem environ env @ ''.exe.zip'') ''.exe.zip'' ''.zip''"
    using win by (simp add: zip_filename_def suffixed_name_def endswith_def Let_def)
  also have "\<dots> = name_stem environ env @ ''.zip''"
    using stem by (rule replace_trailing_exe)
  finally show "\<not> contains (zip_filename environ env) ''.exe''"
    using stem by (simp add: no_exe_before_zip)
qed

theorem windows_names_witness:
  "target_env Map.empty [(''GOOS'', ''windows''), (''GOARCH'', ''amd64'')] ''GOOS'' = Some ''windows''
   \<and> endswith (bin_filename Map.empty [(''GOOS'', ''windows''), (''GOARCH'', ''amd64'')]) ''.exe''
   \<and> \<not> contains (zip_filename Map.empty [(''GOOS'', ''windows''), (''GOARCH'', ''amd64'')]) ''.exe''"
proof -
  have h: "target_env Map.empty [(''GOOS'', ''windows''), (''GOARCH'', ''amd64'')] ''GOOS''
           = Some ''windows''"
    by (simp add: target_env_def)
  have v: "\<forall>p\<in>set [(''GOOS'', ''windows''), (''GOARCH'', ''amd64'')].
             fst p \<in> {''GOOS'', ''GOARCH''} \<longrightarrow> \<not> contains (snd p) ''.exe''"
    by simp
  from windows_names [OF h v] h show ?thesis by simp
qed

text \<open>The claim as stated fails when a value of the spec itself contains \<open>.exe\<close>: only the
  extension appended last is stripped.\<close>

theorem archive_name_keeps_exe_of_value:
  "(''GOOS'', ''windows'') \<in> set [(''GOOS'', ''windows''), (''GOARCH'', ''x.exe'')]
   \<and> zip_filename Map.empty [(''GOOS'', ''windows''), (''GOARCH'', ''x.exe'')]
     = ''mosdns-log-windows-x.exe.zip''
   \<and> contains (zip_filename Map.empty [(''GOOS'', ''windows''), (''GOARCH'', ''x.exe'')]) ''.exe''"
  by (simp add: zip_filename_def suffixed_name_def target_env_def
      name_stem_def PROJECT_NAME_def endswith_def suffix_def)

text \<open>
  Claim C5.  A spec with a \<open>GOAMD64\<close> pair yields a name, and an archive filename, that
  contains the tag \<open>-v3\<close>, whatever value the pair carries.
\<close>

theorem microarch_tag:
  assumes "(''GOAMD64'', v) \<in> set env"
  shows "contains (name_stem environ env) ''-v3''
         \<and> contains (zip_filename environ env) ''-v3''"
proof -
  from assms have "contains (name_suffix env) ''-v3''" by (rule contains_v3_name_suffix)
  then have stem: "contains (name_stem environ env) ''-v3''"
    unfolding name_stem_suffix by (rule contains_appendI2)
  then have "contains (suffixed_name environ env) ''-v3''"
    unfolding suffixed_name_def by (simp add: contains_appendI1)
  then have z: "contains (suffixed_name environ env @ ''.zip'') ''-v3''"
    by (rule contains_appendI1)
  have "contains (zip_filename environ env) ''-v3''"
  proof (cases "endswith (suffixed_name environ env @ ''.zip'') ''.exe.zip''")
    case True
    then have "zip_filename environ env =
               replace (suffixed_name environ env @ ''.zip'') ''.exe.zip'' ''.zip''"
      by (simp add: zip_filename_def Let_def)
    with z show ?thesis by (simp add: contains_v3_replace)
  next
    case False
    then have "zip_filename environ env = suffixed_name environ env @ ''.zip''"
      by (simp add: zip_filename_def Let_def)
    with z show ?thesis by simp
  qed
  with stem show ?thesis ..
qed

theorem microarch_tag_witness:
  "(''GOAMD64'', ''v1'') \<in> set [(''GOOS'', ''linux''), (''GOAMD64'', ''v1'')]
   \<and> contains (name_stem Map.empty [(''GOOS'', ''linux''), (''GOAMD64'', ''v1'')]) ''-v3''
   \<and> contains (zip_filename Map.empty [(''GOOS'', ''linux''), (''GOAMD64'', ''v1'')]) ''-v3''"
proof -
  have h: "(''GOAMD64'', ''v1'') \<in> set [(''GOOS'', ''linux''), (''GOAMD64'', ''v1'')]"
    by simp
  from microarch_tag [OF h] h show ?thesis by simp
qed

section \<open>Properties of the path functions\<close>

lemma split_sep_nonempty: "split_sep s \<noteq> []"
  by (induction s) (auto split: list.splits)

lemma split_sep_append: "split_sep (a @ CHR ''/'' # b) = split_sep a @ split_sep b"
proof (induction a)
  case Nil
  then show ?case by simp
next
  case (Cons c a)
  then show ?case
    using split_sep_nonempty [of a] by (cases "split_sep a") auto
qed

lemma split_sep_noslash: "CHR ''/'' \<notin> set s \<Longrightarrow> split_sep s = [s]"
  by (induction s) auto

lemma split_sep_noslash_comps: "\<forall>c\<in>set (split_sep s). CHR ''/'' \<notin> set c"
proof (induction s)
  case Nil
  then show ?case by simp
next
  case (Cons c s)
  then show ?case
    using split_sep_nonempty [of s] by (cases "split_sep s") auto
qed

lemma split_join:
  "comps \<noteq> [] \<Longrightarrow> \<forall>c\<in>set comps. CHR ''/'' \<notin> set c \<Longrightarrow> split_sep (join_sep comps) = comps"
proof (induction comps rule: join_sep.induct)
  case 1
  then show ?case by simp
next
  case (2 x)
  then show ?case by (simp add: split_sep_noslash)
next
  case (3 x y ys)
  then show ?case by (simp add: split_sep_append split_sep_noslash)
qed

lemma join_sep_Cons: "join_sep (x # ns) = x @ concat (map (\<lambda>n. CHR ''/'' # n) ns)"
  by (induction ns arbitrary: x) auto

lemma norm_comps_append:
  "norm_comps ini st (xs @ ys) = norm_comps ini (norm_comps ini st xs) ys"
  by (induction xs arbitrary: st) auto

lemma norm_comps_valid:
  "\<forall>n\<in>set ns. valid_name n \<Longrightarrow> norm_comps ini st ns = st @ ns"
  by (induction ns arbitrary: st) (auto simp: valid_name_def)

lemma norm_comps_clean:
  "\<forall>c\<in>set st. valid_name c \<Longrightarrow> \<forall>c\<in>set xs. CHR ''/'' \<notin> set c \<Longrightarrow>
   \<forall>c\<in>set (norm_comps True st xs). valid_name c"
proof (induction xs arbitrary: st)
  case Nil
  then show ?case by simp
next
  case (Cons x xs)
  have "\<forall>c\<in>set (if x = [] \<or> x = ''.'' then st
        else if x \<noteq> ''..'' \<or> (\<not> True \<and> st = []) \<or> (st \<noteq> [] \<and> last st = ''..'')
        then st @ [x]
        else if st \<noteq> [] then butlast st
        else st). valid_name c"
    using Cons.prems by (auto simp: valid_name_def dest: in_set_butlastD)
  moreover have "\<forall>c\<in>set xs. CHR ''/'' \<notin> set c" using Cons.prems by simp
  ultimately show ?case unfolding norm_comps.simps by (rule Cons.IH)
qed

lemma commonprefix_append: "commonprefix xs (xs @ ys) = xs"
proof (induction xs)
  case Nil
  then show ?case by (cases ys) auto
next
  case (Cons x xs)
  then show ?case by simp
qed

lemma filter_split_slashes:
  "filter (\<lambda>x. x \<noteq> []) (split_sep (replicate n (CHR ''/'') @ s)) = filter (\<lambda>x. x \<noteq> []) (split_sep s)"
  by (induction n) auto

lemma filter_split_join:
  assumes "\<forall>c\<in>set comps. valid_name c"
  shows "filter (\<lambda>x. x \<noteq> []) (split_sep (join_sep comps)) = comps"
proof (cases comps)
  case Nil
  then show ?thesis by simp
next
  case (Cons a list)
  with assms have "split_sep (join_sep comps) = comps"
    by (intro split_join) (auto simp: valid_name_def)
  moreover have "filter (\<lambda>x. x \<noteq> []) comps = comps"
    using assms by (auto simp: valid_name_def intro: filter_True)
  ultimately show ?thesis by simp
qed

lemma endswith_slash: "endswith a ''/'' \<longleftrightarrow> a \<noteq> [] \<and> last a = CHR ''/''"
proof
  assume "endswith a ''/''"
  then obtain b where "a = b @ ''/''" by (auto simp: endswith_def suffix_def)
  then show "a \<noteq> [] \<and> last a = CHR ''/''" by simp
next
  assume "a \<noteq> [] \<and> last a = CHR ''/''"
  then have "a = butlast a @ ''/''" by (metis append_butlast_last_id)
  then show "endswith a ''/''" unfolding endswith_def suffix_def by blast
qed

lemma valid_name_no_slash_prefix: "valid_name n \<Longrightarrow> \<not> prefix ''/'' n"
  by (cases n) (auto simp: valid_name_def)

lemma os_path_join_valid:
  "a \<noteq> [] \<Longrightarrow> last a \<noteq> CHR ''/'' \<Longrightarrow> valid_name n \<Longrightarrow> os_path_join a n = a @ CHR ''/'' # n"
  by (simp add: os_path_join_def endswith_slash valid_name_no_slash_prefix)

lemma valid_name_last: "valid_name n \<Longrightarrow> n \<noteq> [] \<and> last n \<noteq> CHR ''/''"
proof -
  assume "valid_name n"
  then have 1: "n \<noteq> []" and 2: "CHR ''/'' \<notin> set n" by (auto simp: valid_name_def)
  from 1 have "last n \<in> set n" by (rule last_in_set)
  with 1 2 show ?thesis by metis
qed

lemma foldl_os_path_join:
  "a \<noteq> [] \<Longrightarrow> last a \<noteq> CHR ''/'' \<Longrightarrow> \<forall>n\<in>set ns. valid_name n \<Longrightarrow>
   foldl os_path_join a ns = a @ concat (map (\<lambda>n. CHR ''/'' # n) ns)"
proof (induction ns arbitrary: a)
  case Nil
  then show ?case by simp
next
  case (Cons n ns)
  from Cons.prems have n: "valid_name n" by simp
  with Cons.prems have j: "os_path_join a n = a @ CHR ''/'' # n"
    by (intro os_path_join_valid)
  have "foldl os_path_join (a @ CHR ''/'' # n) ns
        = (a @ CHR ''/'' # n) @ concat (map (\<lambda>n. CHR ''/'' # n) ns)"
    using Cons.prems valid_name_last [OF n] by (intro Cons.IH) auto
  then show ?case by (simp add: j)
qed

lemma abspath_comps:
  assumes abs: "prefix ''/'' cwd" and rel: "\<not> prefix ''/'' p"
  shows "filter (\<lambda>x. x \<noteq> []) (split_sep (abspath cwd p))
         = norm_comps True (norm_comps True [] (split_sep cwd)) (split_sep p)"
proof -
  define q where "q = os_path_join cwd p"
  define C where "C = norm_comps True (norm_comps True [] (split_sep cwd)) (split_sep p)"
  from abs have cwd: "cwd \<noteq> []" by auto
  have q0: "prefix ''/'' q"
    using abs rel by (auto simp: q_def os_path_join_def prefix_def)
  then have q1: "q \<noteq> []" and n1: "initial_slashes q \<noteq> 0"
    by (auto simp: initial_slashes_def)
  have "norm_comps True [] (split_sep q) = C"
  proof (cases "endswith cwd ''/''")
    case True
    then obtain c where c: "cwd = c @ ''/''" by (auto simp: endswith_def suffix_def)
    have "q = c @ CHR ''/'' # p" using True rel by (simp add: q_def os_path_join_def c)
    then have "split_sep q = split_sep c @ split_sep p" by (simp add: split_sep_append)
    moreover have "split_sep cwd = split_sep c @ [[]]"
      unfolding c using split_sep_append [of c "[]"] by simp
    ultimately show ?thesis by (simp add: C_def norm_comps_append)
  next
    case False
    then have "q = cwd @ CHR ''/'' # p" using rel cwd by (simp add: q_def os_path_join_def)
    then have "split_sep q = split_sep cwd @ split_sep p" by (simp add: split_sep_append)
    then show ?thesis by (simp add: C_def norm_comps_append)
  qed
  then have "normpath q = replicate (initial_slashes q) (CHR ''/'') @ join_sep C"
    using q1 n1 by (simp add: normpath_def Let_def)
  moreover have "\<forall>c\<in>set C. valid_name c"
    unfolding C_def using split_sep_noslash_comps
    by (intro norm_comps_clean) simp_all
  ultimately have "filter (\<lambda>x. x \<noteq> []) (split_sep (normpath q)) = C"
    by (simp add: filter_split_slashes filter_split_join)
  then show ?thesis using rel by (simp add: abspath_def q_def C_def)
qed

lemma relpath_under_parent:
  assumes abs: "prefix ''/'' cwd" and ns: "\<forall>n\<in>set ns. valid_name n" and n: "valid_name n"
  shows "relpath cwd (''../'' @ join_sep (n # ns)) ''..'' = Inr (join_sep (n # ns))"
proof -
  define S where "S = norm_comps True [] (split_sep cwd)"
  define T where "T = (if S \<noteq> [] then butlast S else S)"
  have S: "\<forall>c\<in>set S. valid_name c"
    unfolding S_def using split_sep_noslash_comps by (intro norm_comps_clean) simp_all
  have "S \<noteq> [] \<Longrightarrow> last S \<noteq> ''..''"
    using S last_in_set by (fastforce simp: valid_name_def)
  then have up: "norm_comps True S [''..''] = T" by (auto simp: T_def)
  from n ns have nons: "\<forall>c\<in>set (n # ns). CHR ''/'' \<notin> set c"
    by (auto simp: valid_name_def)
  have "''../'' @ join_sep (n # ns) = join_sep (''..'' # n # ns)" by simp
  moreover have "split_sep (join_sep (''..'' # n # ns)) = ''..'' # n # ns"
    using nons by (intro split_join) auto
  ultimately have sp: "split_sep (''../'' @ join_sep (n # ns)) = ''..'' # n # ns" by simp
  have start: "filter (\<lambda>x. x \<noteq> []) (split_sep (abspath cwd ''..'')) = T"
    using abspath_comps [OF abs, of "''..''"] up by (simp add: S_def)
  have "norm_comps True S (''..'' # n # ns) = norm_comps True T (n # ns)"
    using up norm_comps_append [of True S "[''..'']" "n # ns"] by simp
  also have "\<dots> = T @ n # ns" using n ns by (intro norm_comps_valid) simp
  finally have path: "filter (\<lambda>x. x \<noteq> []) (split_sep (abspath cwd (''../'' @ join_sep (n # ns))))
                      = T @ n # ns"
    using abspath_comps [OF abs, of "''../'' @ join_sep (n # ns)"] sp by (simp add: S_def)
  have "foldl os_path_join n ns = join_sep (n # ns)"
    unfolding join_sep_Cons using valid_name_last [OF n] ns
    by (intro foldl_os_path_join) auto
  then show ?thesis
    unfolding relpath_def Let_def start path by (simp add: commonprefix_append)
qed

lemma join_sep_snoc: "xs \<noteq> [] \<Longrightarrow> join_sep (xs @ [d]) = join_sep xs @ CHR ''/'' # d"
  by (induction xs rule: join_sep.induct) auto

lemma join_sep_last:
  "xs \<noteq> [] \<Longrightarrow> \<forall>x\<in>set xs. valid_name x \<Longrightarrow>
   join_sep xs \<noteq> [] \<and> last (join_sep xs) \<noteq> CHR ''/''"
proof (cases xs rule: rev_cases)
  case Nil
  assume "xs \<noteq> []"
  with Nil show ?thesis by simp
next
  case (snoc ys d)
  assume "\<forall>x\<in>set xs. valid_name x"
  with snoc have d: "d \<noteq> [] \<and> last d \<noteq> CHR ''/''" by (simp add: valid_name_last)
  show ?thesis
  proof (cases "ys = []")
    case True
    with snoc d show ?thesis by simp
  next
    case False
    with snoc d show ?thesis by (simp add: join_sep_snoc)
  qed
qed

lemma under_web_top: "under_web WEB_DIR []"
  by (simp add: under_web_def WEB_DIR_def)

lemma under_web_join:
  assumes "under_web r ns" and "valid_name d"
  shows "under_web (os_path_join r d) (ns @ [d])"
proof -
  have v: "\<forall>x\<in>set (''web'' # ns). valid_name x"
    using assms(1) by (simp add: under_web_def valid_name_def)
  then have "join_sep (''web'' # ns) \<noteq> [] \<and> last (join_sep (''web'' # ns)) \<noteq> CHR ''/''"
    by (intro join_sep_last) simp
  then have "r \<noteq> []" and "last r \<noteq> CHR ''/''"
    using assms(1) by (simp_all add: under_web_def)
  then have "os_path_join r d = r @ CHR ''/'' # d"
    using assms(2) by (rule os_path_join_valid)
  also have "\<dots> = ''../'' @ join_sep (''web'' # ns) @ CHR ''/'' # d"
    using assms(1) by (simp add: under_web_def)
  also have "join_sep (''web'' # ns) @ CHR ''/'' # d = join_sep ((''web'' # ns) @ [d])"
    by (rule join_sep_snoc [symmetric]) simp
  finally show ?thesis using assms by (simp add: under_web_def)
qed

lemma under_web_relpath:
  assumes "prefix ''/'' cwd" and "under_web p ns" and "ns \<noteq> []"
  shows "relpath cwd p ''..'' = Inr (drop 3 p)"
    and "p = ''../'' @ drop 3 p"
    and "prefix ''web/'' (drop 3 p)"
proof -
  have w: "valid_name ''web''" by (simp add: valid_name_def)
  from assms(2) have ns: "\<forall>n\<in>set ns. valid_name n"
    and p: "p = ''../'' @ join_sep (''web'' # ns)"
    by (simp_all add: under_web_def)
  have d: "drop 3 p = join_sep (''web'' # ns)" unfolding p by simp
  show "relpath cwd p ''..'' = Inr (drop 3 p)"
    unfolding d unfolding p using assms(1) ns w by (rule relpath_under_parent)
  show "p = ''../'' @ drop 3 p" unfolding d by (rule p)
  from assms(3) obtain n ms where "ns = n # ms" by (cases ns) auto
  then show "prefix ''web/'' (drop 3 p)" unfolding d by simp
qed

section \<open>The walk over the asset directory\<close>

lemma os_walk_under_web:
  "under_web dir ns \<Longrightarrow> \<forall>e\<in>set ents. wf_dirent e \<Longrightarrow> (r, ds, fs) \<in> set (os_walk dir ents) \<Longrightarrow>
   (\<exists>ms. under_web r ms) \<and> (\<forall>f\<in>set fs. valid_name f)"
proof (induction dir ents arbitrary: ns rule: os_walk.induct)
  case (1 dir ents)
  from "1.prems"(3) consider
      (here) "(r, ds, fs) = (dir, [d. Dir d sub \<leftarrow> ents], [f. File f \<leftarrow> ents])"
    | (below) e where "e \<in> set ents"
        and "(r, ds, fs) \<in> set (case e of Dir d sub \<Rightarrow> os_walk (os_path_join dir d) sub
                                        | File f \<Rightarrow> [])"
    by (subst (asm) os_walk.simps) auto
  then show ?case
  proof cases
    case here
    then have "fs = [f. File f \<leftarrow> ents]" and "r = dir" by simp_all
    moreover have "\<forall>f\<in>set [f. File f \<leftarrow> ents]. valid_name f"
      using "1.prems"(2) by (auto split: dirent.splits)
    ultimately show ?thesis using "1.prems"(1) by blast
  next
    case below
    then obtain d sub where e: "e = Dir d sub"
      and in_sub: "(r, ds, fs) \<in> set (os_walk (os_path_join dir d) sub)"
      by (cases e) auto
    from "1.prems"(2) below(1) e have "valid_name d" and sub: "\<forall>x\<in>set sub. wf_dirent x"
      by auto
    with "1.prems"(1) have "under_web (os_path_join dir d) (ns @ [d])"
      by (intro under_web_join)
    then show ?thesis using sub in_sub by (rule "1.IH" [OF below(1) e])
  qed
qed

section \<open>Frame properties of the pipeline, and its failures\<close>

lemma archive_grows_refl: "archive_grows zipf st st"
  by (simp add: archive_grows_def)

lemma archive_grows_trans:
  "archive_grows zipf st st' \<Longrightarrow> archive_grows zipf st' st'' \<Longrightarrow> archive_grows zipf st st''"
  unfolding archive_grows_def by (metis append.assoc)

lemma archive_grows_log: "archive_grows zipf st (log_msg lvl m st)"
  by (simp add: archive_grows_def log_msg_def)

lemma then_do_cases:
  obtains (raised) e st' where "f st = (Some e, st')" "then_do f g st = (Some e, st')"
        | (passed) st' where "f st = (None, st')" "then_do f g st = g st'"
proof (cases "f st")
  case (Pair r st')
  then show ?thesis
    by (cases r) (auto simp: then_do_def intro: raised passed)
qed

lemma then_do_grows:
  assumes "\<And>s. archive_grows zipf s (snd (f s))" and "\<And>s. archive_grows zipf s (snd (g s))"
  shows "archive_grows zipf st (snd (then_do f g st))"
proof (cases rule: then_do_cases [of f st g])
  case (raised e st')
  with assms(1) [of st] show ?thesis by simp
next
  case (passed st')
  with assms(1) [of st] assms(2) [of st'] show ?thesis
    by (auto intro: archive_grows_trans)
qed

lemma zf_write_grows: "archive_grows zipf st (snd (zf_write oc zipf path arcname st))"
  by (auto simp: zf_write_def archive_grows_def zf_entries_def)

lemma write_files_grows: "archive_grows zipf st (snd (write_files cwd oc zipf root fs st))"
proof (induction fs arbitrary: st)
  case Nil
  then show ?case by (simp add: archive_grows_refl)
next
  case (Cons f fs)
  show ?case
  proof (cases "relpath cwd (os_path_join root f) ''..''")
    case (Inl e)
    then show ?thesis by (simp add: archive_grows_refl)
  next
    case (Inr a)
    have "archive_grows zipf st
            (snd (then_do (zf_write oc zipf (os_path_join root f) a)
                          (write_files cwd oc zipf root fs) st))"
      by (rule then_do_grows) (rule zf_write_grows, rule Cons.IH)
    with Inr show ?thesis by simp
  qed
qed

lemma write_walk_grows: "archive_grows zipf st (snd (write_walk cwd oc zipf ts st))"
proof (induction ts arbitrary: st)
  case Nil
  then show ?case by (simp add: archive_grows_refl)
next
  case (Cons t ts)
  obtain root ds fs where t: "t = (root, ds, fs)" by (cases t)
  have "archive_grows zipf st
          (snd (then_do (write_files cwd oc zipf root fs) (write_walk cwd oc zipf ts) st))"
    by (rule then_do_grows) (rule write_files_grows, rule Cons.IH)
  then show ?case by (simp add: t)
qed

lemma archive_body_grows: "archive_grows zipf st (snd (archive_body cwd oc bin zipf st))"
  unfolding archive_body_def
  by (intro then_do_grows)
     (simp_all add: zf_write_grows write_walk_grows archive_grows_refl archive_grows_log)

lemma make_archive_frame:
  assumes "make_archive cwd oc bin zipf st = (r, st')"
  shows "web_tree st' = web_tree st
         \<and> (\<forall>p. p \<noteq> zipf \<longrightarrow> files st' p = files st p)
         \<and> (r = None \<longrightarrow> (\<exists>es. files st' zipf = Some (Archive es)))"
proof (cases "open_raises oc")
  case True
  with assms have "st' = st" and "r \<noteq> None" by (auto simp: make_archive_def zf_open_def)
  then show ?thesis by auto
next
  case False
  define st1 where "st1 = st\<lparr>files := (files st)(zipf \<mapsto> Archive [])\<rparr>"
  from False assms have "st' = snd (archive_body cwd oc bin zipf st1)"
    by (auto simp: make_archive_def zf_open_def st1_def split: prod.splits)
  then have "archive_grows zipf st1 st'" by (simp add: archive_body_grows)
  then show ?thesis by (simp add: archive_grows_def st1_def)
qed

lemma zip_filename_suffix: "suffix ''.zip'' (zip_filename environ env)"
proof -
  have "suffix ''.zip'' (suffixed_name environ env @ ''.zip'')" by (simp add: suffix_def)
  then show ?thesis by (simp add: zip_filename_def Let_def suffix_zip_replace)
qed

lemma bin_filename_cases:
  "bin_filename environ env = ''mosdns-log'' \<or> bin_filename environ env = ''mosdns-log.exe''"
  by (simp add: bin_filename_def PROJECT_NAME_def)

lemma bin_filename_not_zip: "bin_filename environ env \<noteq> zip_filename environ env"
  using zip_filename_suffix [of environ env] bin_filename_cases [of environ env]
  by (auto simp: suffix_def)

lemma zip_filename_not_input:
  "zip_filename environ env \<noteq> CONFIG_FILE" "zip_filename environ env \<noteq> README_FILE"
  "zip_filename environ env \<noteq> WEB_DIR"
  using zip_filename_suffix [of environ env]
  by (auto simp: suffix_def CONFIG_FILE_def README_FILE_def WEB_DIR_def)

lemma bin_filename_not_input:
  "bin_filename environ env \<noteq> CONFIG_FILE" "bin_filename environ env \<noteq> README_FILE"
  "bin_filename environ env \<noteq> WEB_DIR"
  using bin_filename_cases [of environ env]
  by (auto simp: CONFIG_FILE_def README_FILE_def WEB_DIR_def)

lemma upx_step_fst: "fst (upx_step args_upx oc environ bin st) = None"
  by (simp add: upx_step_def run_upx_def split: option.splits)

lemma upx_step_frame:
  "web_tree (snd (upx_step args_upx oc environ bin st)) = web_tree st"
  "p \<noteq> bin \<Longrightarrow> files (snd (upx_step args_upx oc environ bin st)) p = files st p"
  "files st bin = Some (Executable c) \<Longrightarrow>
     \<exists>c'. files (snd (upx_step args_upx oc environ bin st)) bin = Some (Executable c')"
  by (auto simp: upx_step_def run_upx_def log_msg_def split: option.splits)

lemma try_body_failed:
  assumes "toolchain_status oc environ env \<noteq> 0"
  shows "try_body args_upx cwd environ oc env st
         = (Some (CalledProcessError (toolchain_status oc environ env)), st)"
  using assms
  by (simp add: try_body_def Let_def then_do_def run_go_def check_call_def toolchain_status_def)

lemma build_target_log:
  "build_target args_upx cwd environ oc env st =
     (case try_body args_upx cwd environ oc env (st\<lparr>log := log st @ [building_msg environ env]\<rparr>) of
        (None, st') \<Rightarrow> st'
      | (Some (CalledProcessError rc), st') \<Rightarrow>
          log_msg ERROR (BuildFailed (CalledProcessError rc)) st'
      | (Some e, st') \<Rightarrow> log_msg ERROR (UnknownError e) st')"
  by (simp add: build_target_def Let_def log_msg_def building_msg_def)

text \<open>
  Claim C3.  When the toolchain exits with a non-zero status for the target at position
  \<open>i\<close>, the iteration for that target changes nothing but the log, to which it adds the
  line announcing the target and an \<open>ERROR\<close> record of the failure: no file, hence no
  archive, is produced.  The loop then goes on with the remaining targets.
\<close>

theorem toolchain_failure_isolated:
  assumes "toolchain_status (world i) environ env \<noteq> 0"
  shows "build_target args_upx cwd environ (world i) env st
           = st\<lparr>log := log st @ [building_msg environ env,
                   (ERROR, BuildFailed (CalledProcessError
                                         (toolchain_status (world i) environ env)))]\<rparr>
         \<and> files (build_target args_upx cwd environ (world i) env st) = files st
         \<and> build_loop args_upx cwd environ world i (env # rest) st
           = build_loop args_upx cwd environ world (Suc i) rest
               (st\<lparr>log := log st @ [building_msg environ env,
                   (ERROR, BuildFailed (CalledProcessError
                                         (toolchain_status (world i) environ env)))]\<rparr>)"
proof -
  have "build_target args_upx cwd environ (world i) env st
        = st\<lparr>log := log st @ [building_msg environ env,
                (ERROR, BuildFailed (CalledProcessError
                                      (toolchain_status (world i) environ env)))]\<rparr>"
    unfolding build_target_log try_body_failed [OF assms] by (simp add: log_msg_def)
  then show ?thesis by simp
qed

text \<open>A failing first target does not keep the second one from being built and packed.\<close>

theorem toolchain_failure_isolated_witness:
  "toolchain_status toolchain_fails Map.empty linux_target \<noteq> 0
   \<and> files (build_target True ''/srv/release'' Map.empty toolchain_fails linux_target scenario_state)
     = files scenario_state
   \<and> files (build_loop False ''/srv/release'' Map.empty
              (\<lambda>i. if i = 0 then toolchain_fails else tools_ok) 0
              [linux_target, [(''GOOS'', ''windows''), (''GOARCH'', ''amd64'')]] scenario_state)
       ''mosdns-log-windows-amd64.zip''
     = Some (Archive [''mosdns-log.exe'', ''config.yaml'', ''README.md'', ''web/index.html'',
                      ''web/css/style.css''])"
proof -
  define world where "world = (\<lambda>i::nat. if i = 0 then toolchain_fails else tools_ok)"
  have h: "toolchain_status (world 0) Map.empty linux_target \<noteq> 0"
    by (simp add: world_def toolchain_status_def toolchain_fails_def tools_ok_def)
  have h': "toolchain_status toolchain_fails Map.empty linux_target \<noteq> 0"
    using h by (simp add: world_def)
  have r: "files (build_loop False ''/srv/release'' Map.empty
                   (\<lambda>i. if i = 0 then toolchain_fails else tools_ok) (Suc 0)
                   [[(''GOOS'', ''windows''), (''GOARCH'', ''amd64'')]]
                   (scenario_state\<lparr>log := log scenario_state @
                      [building_msg Map.empty linux_target,
                       (ERROR, BuildFailed (CalledProcessError
                          (toolchain_status toolchain_fails Map.empty linux_target)))]\<rparr>))
             ''mosdns-log-windows-amd64.zip''
           = Some (Archive [''mosdns-log.exe'', ''config.yaml'', ''README.md'',
                            ''web/index.html'', ''web/css/style.css''])"
    by code_simp
  from toolchain_failure_isolated [of world 0, OF h, of False "''/srv/release''" scenario_state
      "[[(''GOOS'', ''windows''), (''GOARCH'', ''amd64'')]]"]
  have "build_loop False ''/srv/release'' Map.empty world 0
          [linux_target, [(''GOOS'', ''windows''), (''GOARCH'', ''amd64'')]] scenario_state
        = build_loop False ''/srv/release'' Map.empty world (Suc 0)
            [[(''GOOS'', ''windows''), (''GOARCH'', ''amd64'')]]
            (scenario_state\<lparr>log := log scenario_state @
               [building_msg Map.empty linux_target,
                (ERROR, BuildFailed (CalledProcessError
                   (toolchain_status toolchain_fails Map.empty linux_target)))]\<rparr>)"
    by (simp add: world_def)
  with r have 3: "files (build_loop False ''/srv/release'' Map.empty
              (\<lambda>i. if i = 0 then toolchain_fails else tools_ok) 0
              [linux_target, [(''GOOS'', ''windows''), (''GOARCH'', ''amd64'')]] scenario_state)
       ''mosdns-log-windows-amd64.zip''
     = Some (Archive [''mosdns-log.exe'', ''config.yaml'', ''README.md'', ''web/index.html'',
                      ''web/css/style.css''])"
    by (simp only: world_def)
  from toolchain_failure_isolated [of "\<lambda>i. toolchain_fails" 0, OF h',
      of True "''/srv/release''" scenario_state "[]"]
  have 2: "files (build_target True ''/srv/release'' Map.empty toolchain_fails linux_target
                    scenario_state) = files scenario_state"
    by simp
  from h' 2 3 show ?thesis by (intro conjI)
qed

lemma try_body_built:
  assumes "toolchain_status oc environ env = 0"
  shows "try_body args_upx cwd environ oc env st
         = (case make_archive cwd oc (bin_filename environ env) (zip_filename environ env)
                  (built args_upx oc environ env st) of
              (Some e, st3) \<Rightarrow> (Some e, st3)
            | (None, st3) \<Rightarrow>
                (None, log_msg INFO (Success (zip_filename environ env))
                         (snd (cleanup (bin_filename environ env) st3))))"
proof -
  define bin where "bin = bin_filename environ env"
  have "run_go oc (target_env environ env) bin st
        = (None, st\<lparr>files := (files st)(bin \<mapsto> Executable False)\<rparr>)"
    using assms(1) by (simp add: run_go_def check_call_def toolchain_status_def bin_def)
  moreover have "upx_step args_upx oc environ bin
                   (st\<lparr>files := (files st)(bin \<mapsto> Executable False)\<rparr>)
                 = (None, built args_upx oc environ env st)"
    using upx_step_fst [of args_upx oc environ bin]
    by (simp add: built_def prod_eq_iff bin_def)
  ultimately show ?thesis
    by (simp add: try_body_def Let_def then_do_def bin_def [symmetric]
        cleanup_def split: prod.splits option.splits)
qed

lemma built_frame:
  "web_tree (built args_upx oc environ env st) = web_tree st"
  "p \<noteq> bin_filename environ env \<Longrightarrow> files (built args_upx oc environ env st) p = files st p"
  "\<exists>c. files (built args_upx oc environ env st) (bin_filename environ env) = Some (Executable c)"
proof -
  show "web_tree (built args_upx oc environ env st) = web_tree st"
    unfolding built_def by (simp add: upx_step_frame)
  show "p \<noteq> bin_filename environ env \<Longrightarrow> files (built args_upx oc environ env st) p = files st p"
    unfolding built_def by (simp add: upx_step_frame)
  show "\<exists>c. files (built args_upx oc environ env st) (bin_filename environ env)
            = Some (Executable c)"
    unfolding built_def by (rule upx_step_frame(3) [where c = False]) simp
qed

lemma target_outcome_None_status:
  assumes "target_outcome args_upx cwd environ oc env st = None"
  shows "toolchain_status oc environ env = 0"
proof (rule ccontr)
  assume "toolchain_status oc environ env \<noteq> 0"
  then have "target_outcome args_upx cwd environ oc env st \<noteq> None"
    unfolding target_outcome_def by (simp add: try_body_failed)
  with assms show False by simp
qed

text \<open>
  Claim C9.  When the \<^verbatim>\<open>try\<close> body of a target runs to its end (the archive was
  written and closed without an exception), the binary is no longer on disk afterwards,
  the archive is, and every other file and the asset directory are as they were before
  the target was processed.
\<close>

theorem cleanup_removes_only_binary:
  assumes "target_outcome args_upx cwd environ oc env st = None"
  shows "files (build_target args_upx cwd environ oc env st) (bin_filename environ env) = None
         \<and> (\<exists>es. files (build_target args_upx cwd environ oc env st) (zip_filename environ env)
                   = Some (Archive es))
         \<and> (\<forall>p. p \<noteq> bin_filename environ env \<and> p \<noteq> zip_filename environ env \<longrightarrow>
                  files (build_target args_upx cwd environ oc env st) p = files st p)
         \<and> web_tree (build_target args_upx cwd environ oc env st) = web_tree st"
proof -
  define bin where "bin = bin_filename environ env"
  define zipf where "zipf = zip_filename environ env"
  define st0 where "st0 = st\<lparr>log := log st @ [building_msg environ env]\<rparr>"
  define st2 where "st2 = built args_upx oc environ env st0"
  obtain r st3 where m: "make_archive cwd oc bin zipf st2 = (r, st3)"
    by (cases "make_archive cwd oc bin zipf st2")
  have go: "toolchain_status oc environ env = 0"
    using assms by (rule target_outcome_None_status)
  have tb: "try_body args_upx cwd environ oc env st0
            = (case make_archive cwd oc bin zipf st2 of
                 (Some e, st3) \<Rightarrow> (Some e, st3)
               | (None, st3) \<Rightarrow> (None, log_msg INFO (Success zipf) (snd (cleanup bin st3))))"
    unfolding bin_def zipf_def st2_def using go by (rule try_body_built)
  from assms have "fst (try_body args_upx cwd environ oc env st0) = None"
    by (simp add: target_outcome_def st0_def)
  with tb m have r: "r = None" by (cases r) auto
  with tb m have res: "build_target args_upx cwd environ oc env st
                       = log_msg INFO (Success zipf) (snd (cleanup bin st3))"
    by (simp add: build_target_log st0_def [symmetric])
  from make_archive_frame [OF m] r
  have web3: "web_tree st3 = web_tree st2"
    and other3: "\<And>p. p \<noteq> zipf \<Longrightarrow> files st3 p = files st2 p"
    and zip3: "\<exists>es. files st3 zipf = Some (Archive es)"
    by auto
  have web2: "web_tree st2 = web_tree st"
    and other2: "\<And>p. p \<noteq> bin \<Longrightarrow> files st2 p = files st p"
    and bin2: "\<exists>c. files st2 bin = Some (Executable c)"
    unfolding st2_def bin_def by (simp_all add: built_frame st0_def)
  have ne: "bin \<noteq> zipf" unfolding bin_def zipf_def by (rule bin_filename_not_zip)
  with other3 [of bin] bin2 have "path_exists st3 bin" by (auto simp: path_exists_def)
  then have fin: "files (build_target args_upx cwd environ oc env st) = (files st3)(bin := None)"
    and webf: "web_tree (build_target args_upx cwd environ oc env st) = web_tree st3"
    unfolding res by (simp_all add: cleanup_def log_msg_def)
  show ?thesis
    unfolding bin_def [symmetric] zipf_def [symmetric] fin webf
    using ne zip3 other3 other2 web3 web2 by auto
qed

theorem cleanup_removes_only_binary_witness:
  "target_outcome True ''/srv/release'' Map.empty tools_ok linux_target scenario_state = None
   \<and> files (build_target True ''/srv/release'' Map.empty tools_ok linux_target scenario_state)
       (bin_filename Map.empty linux_target) = None
   \<and> files (build_target True ''/srv/release'' Map.empty tools_ok linux_target scenario_state)
       CONFIG_FILE = Some Plain"
proof -
  have h: "target_outcome True ''/srv/release'' Map.empty tools_ok linux_target scenario_state = None"
    by code_simp
  have c: "files scenario_state CONFIG_FILE = Some Plain"
    by (simp add: scenario_state_def CONFIG_FILE_def README_FILE_def)
  have n: "CONFIG_FILE \<noteq> bin_filename Map.empty linux_target
           \<and> CONFIG_FILE \<noteq> zip_filename Map.empty linux_target"
    using bin_filename_not_input(1) [of Map.empty linux_target]
      zip_filename_not_input(1) [of Map.empty linux_target] by auto
  from cleanup_removes_only_binary [OF h] n
  have "files (build_target True ''/srv/release'' Map.empty tools_ok linux_target scenario_state)
          (bin_filename Map.empty linux_target) = None"
    and "files (build_target True ''/srv/release'' Map.empty tools_ok linux_target scenario_state)
          CONFIG_FILE = files scenario_state CONFIG_FILE"
    by blast+
  with h c show ?thesis by simp
qed

text \<open>
  Claim C10.  When the toolchain succeeded and an exception leaves the \<^verbatim>\<open>try\<close> body
  all the same (it can then only come from the archive construction), the binary is still
  on disk when the iteration for the target ends, and the last log record is an error.
\<close>

theorem binary_kept_when_archive_fails:
  assumes "toolchain_status oc environ env = 0"
    and "target_outcome args_upx cwd environ oc env st = Some e"
  shows "(\<exists>c. files (build_target args_upx cwd environ oc env st) (bin_filename environ env)
               = Some (Executable c))
         \<and> (\<exists>m. last (log (build_target args_upx cwd environ oc env st)) = (ERROR, m))"
proof -
  define bin where "bin = bin_filename environ env"
  define zipf where "zipf = zip_filename environ env"
  define st0 where "st0 = st\<lparr>log := log st @ [building_msg environ env]\<rparr>"
  define st2 where "st2 = built args_upx oc environ env st0"
  obtain r st3 where m: "make_archive cwd oc bin zipf st2 = (r, st3)"
    by (cases "make_archive cwd oc bin zipf st2")
  have tb: "try_body args_upx cwd environ oc env st0
            = (case make_archive cwd oc bin zipf st2 of
                 (Some e, st3) \<Rightarrow> (Some e, st3)
               | (None, st3) \<Rightarrow> (None, log_msg INFO (Success zipf) (snd (cleanup bin st3))))"
    unfolding bin_def zipf_def st2_def using assms(1) by (rule try_body_built)
  from assms(2) have "fst (try_body args_upx cwd environ oc env st0) = Some e"
    by (simp add: target_outcome_def st0_def)
  with tb m have r: "r = Some e" by (cases r) auto
  with tb m have tb': "try_body args_upx cwd environ oc env st0 = (Some e, st3)" by simp
  from make_archive_frame [OF m]
  have other3: "\<And>p. p \<noteq> zipf \<Longrightarrow> files st3 p = files st2 p" by auto
  have bin2: "\<exists>c. files st2 bin = Some (Executable c)"
    unfolding st2_def bin_def by (rule built_frame)
  have ne: "bin \<noteq> zipf" unfolding bin_def zipf_def by (rule bin_filename_not_zip)
  with other3 [of bin] bin2 have bin3: "\<exists>c. files st3 bin = Some (Executable c)" by simp
  have "\<exists>m. build_target args_upx cwd environ oc env st = log_msg ERROR m st3"
    unfolding build_target_log st0_def [symmetric] tb' by (cases e) auto
  then obtain m where "build_target args_upx cwd environ oc env st = log_msg ERROR m st3" ..
  with bin3 show ?thesis unfolding bin_def [symmetric] by (simp add: log_msg_def)
qed

theorem binary_kept_when_archive_fails_witness:
  "toolchain_status unreadable_asset Map.empty linux_target = 0
   \<and> target_outcome False ''/srv/release'' Map.empty unreadable_asset linux_target scenario_state
     = Some OSError
   \<and> (\<exists>c. files (build_target False ''/srv/release'' Map.empty unreadable_asset linux_target
                     scenario_state) (bin_filename Map.empty linux_target)
           = Some (Executable c))"
proof -
  have h1: "toolchain_status unreadable_asset Map.empty linux_target = 0"
    by (simp add: toolchain_status_def unreadable_asset_def tools_ok_def)
  have h2: "target_outcome False ''/srv/release'' Map.empty unreadable_asset linux_target
              scenario_state = Some OSError"
    by code_simp
  from binary_kept_when_archive_fails [OF h1 h2] h1 h2 show ?thesis by simp
qed

section \<open>A run without faults\<close>

lemma path_exists_other:
  "p \<noteq> q \<Longrightarrow> path_exists (st\<lparr>files := (files st)(q \<mapsto> v)\<rparr>) p = path_exists st p"
  by (simp add: path_exists_def)

lemma files_upd_same: "files st p = Some v \<Longrightarrow> st\<lparr>files := (files st)(p \<mapsto> v)\<rparr> = st"
proof -
  assume "files st p = Some v"
  then have "(files st)(p \<mapsto> v) = files st" by (rule map_upd_triv)
  then show ?thesis by simp
qed

lemma zf_write_ok:
  "\<not> write_raises oc path \<Longrightarrow> files st zipf = Some (Archive es) \<Longrightarrow>
   zf_write oc zipf path arc st
   = (None, st\<lparr>files := (files st)(zipf \<mapsto> Archive (es @ [arc]))\<rparr>)"
  by (simp add: zf_write_def zf_entries_def)

lemma write_files_ok:
  assumes "\<forall>p. \<not> write_raises oc p"
    and "\<forall>f\<in>set fs. relpath cwd (os_path_join root f) ''..'' = Inr (drop 3 (os_path_join root f))"
    and "files st zipf = Some (Archive es)"
  shows "write_files cwd oc zipf root fs st
         = (None, st\<lparr>files := (files st)(zipf \<mapsto>
                     Archive (es @ map (\<lambda>f. drop 3 (os_path_join root f)) fs))\<rparr>)"
  using assms(2,3)
proof (induction fs arbitrary: st es)
  case Nil
  from Nil(2) have "st\<lparr>files := (files st)(zipf \<mapsto> Archive es)\<rparr> = st"
    by (rule files_upd_same)
  then show ?case by (simp only: write_files.simps list.map append_Nil2)
next
  case (Cons f fs)
  define p where "p = os_path_join root f"
  define st1 where "st1 = st\<lparr>files := (files st)(zipf \<mapsto> Archive (es @ [drop 3 p]))\<rparr>"
  have w: "zf_write oc zipf p (drop 3 p) st = (None, st1)"
    unfolding st1_def using assms(1) Cons.prems(2) by (intro zf_write_ok) simp_all
  have "write_files cwd oc zipf root fs st1
        = (None, st1\<lparr>files := (files st1)(zipf \<mapsto>
                    Archive ((es @ [drop 3 p]) @ map (\<lambda>f. drop 3 (os_path_join root f)) fs))\<rparr>)"
    using Cons.prems(1) by (intro Cons.IH) (simp_all add: st1_def)
  then have r: "write_files cwd oc zipf root fs st1
        = (None, st\<lparr>files := (files st)(zipf \<mapsto>
                    Archive (es @ map (\<lambda>f. drop 3 (os_path_join root f)) (f # fs)))\<rparr>)"
    by (simp add: st1_def p_def)
  from Cons.prems(1) have "relpath cwd (os_path_join root f) ''..'' = Inr (drop 3 p)"
    by (simp add: p_def)
  then have "write_files cwd oc zipf root (f # fs) st
             = then_do (zf_write oc zipf p (drop 3 p)) (write_files cwd oc zipf root fs) st"
    by (simp add: Let_def p_def)
  also have "\<dots> = write_files cwd oc zipf root fs st1" by (simp add: then_do_def w)
  also note r
  finally show ?case .
qed

lemma write_walk_ok:
  assumes "\<forall>p. \<not> write_raises oc p"
    and "\<forall>(root, ds, fs)\<in>set ts. \<forall>f\<in>set fs.
           relpath cwd (os_path_join root f) ''..'' = Inr (drop 3 (os_path_join root f))"
    and "files st zipf = Some (Archive es)"
  shows "write_walk cwd oc zipf ts st
         = (None, st\<lparr>files := (files st)(zipf \<mapsto>
              Archive (es @ map (drop 3)
                (concat (map (\<lambda>(root, ds, fs). map (os_path_join root) fs) ts))))\<rparr>)"
  using assms(2,3)
proof (induction ts arbitrary: st es)
  case Nil
  from Nil(2) have "st\<lparr>files := (files st)(zipf \<mapsto> Archive es)\<rparr> = st"
    by (rule files_upd_same)
  then show ?case by (simp only: write_walk.simps list.map concat.simps append_Nil2)
next
  case (Cons t ts)
  obtain root ds fs where t: "t = (root, ds, fs)" by (cases t)
  define es1 where "es1 = es @ map (\<lambda>f. drop 3 (os_path_join root f)) fs"
  define st1 where "st1 = st\<lparr>files := (files st)(zipf \<mapsto> Archive es1)\<rparr>"
  have w: "write_files cwd oc zipf root fs st = (None, st1)"
    unfolding st1_def es1_def using assms(1) Cons.prems by (intro write_files_ok) (auto simp: t)
  have "write_walk cwd oc zipf ts st1
        = (None, st1\<lparr>files := (files st1)(zipf \<mapsto>
              Archive (es1 @ map (drop 3)
                (concat (map (\<lambda>(root, ds, fs). map (os_path_join root) fs) ts))))\<rparr>)"
    using Cons.prems(1) by (intro Cons.IH) (simp_all add: st1_def)
  then have r: "write_walk cwd oc zipf ts st1
        = (None, st\<lparr>files := (files st)(zipf \<mapsto>
              Archive (es @ map (drop 3)
                (concat (map (\<lambda>(root, ds, fs). map (os_path_join root) fs) (t # ts)))))\<rparr>)"
    by (simp add: st1_def es1_def t comp_def)
  have "write_walk cwd oc zipf (t # ts) st
        = then_do (write_files cwd oc zipf root fs) (write_walk cwd oc zipf ts) st"
    by (simp add: t)
  also have "\<dots> = write_walk cwd oc zipf ts st1" by (simp add: then_do_def w)
  also note r
  finally show ?case .
qed


lemma walk_web_under_web:
  assumes "wf_web st" and "(root, ds, fs) \<in> set (walk_web st)" and "f \<in> set fs"
  shows "\<exists>ns. ns \<noteq> [] \<and> under_web (os_path_join root f) ns"
proof -
  from assms(2) obtain ents where ents: "web_tree st = Some ents"
    and t: "(root, ds, fs) \<in> set (os_walk WEB_DIR ents)"
    by (cases "web_tree st") (auto simp: walk_web_def)
  from assms(1) ents have "\<forall>e\<in>set ents. wf_dirent e" by (simp add: wf_web_def)
  with under_web_top have "(\<exists>ms. under_web root ms) \<and> (\<forall>f\<in>set fs. valid_name f)"
    using t by (rule os_walk_under_web)
  with assms(3) obtain ms where "under_web root ms" and "valid_name f" by auto
  then have "under_web (os_path_join root f) (ms @ [f])" by (rule under_web_join)
  then show ?thesis by blast
qed

lemma walk_paths_under_web:
  assumes "wf_web st" and "p \<in> set (walk_paths st)"
  shows "\<exists>ns. ns \<noteq> [] \<and> under_web p ns"
proof -
  from assms(2) obtain root ds fs f where "(root, ds, fs) \<in> set (walk_web st)"
    and "f \<in> set fs" and "p = os_path_join root f"
    by (auto simp: walk_paths_def)
  with assms(1) show ?thesis by (auto dest: walk_web_under_web)
qed

lemma walk_web_relpath:
  assumes "web_tree st = None \<or> (prefix ''/'' cwd \<and> wf_web st)"
  shows "\<forall>(root, ds, fs)\<in>set (walk_web st). \<forall>f\<in>set fs.
           relpath cwd (os_path_join root f) ''..'' = Inr (drop 3 (os_path_join root f))"
proof (cases "web_tree st")
  case None
  then show ?thesis by (simp add: walk_web_def)
next
  case (Some ents)
  with assms have abs: "prefix ''/'' cwd" and wf: "wf_web st" by auto
  show ?thesis
  proof (clarify)
    fix root ds fs f
    assume "(root, ds, fs) \<in> set (walk_web st)" and "f \<in> set fs"
    with wf obtain ns where "ns \<noteq> []" and "under_web (os_path_join root f) ns"
      by (blast dest: walk_web_under_web)
    with abs show "relpath cwd (os_path_join root f) ''..'' = Inr (drop 3 (os_path_join root f))"
      by (intro under_web_relpath(1))
  qed
qed

lemma archive_body_ok:
  assumes nf: "\<forall>p. \<not> write_raises oc p"
    and web: "web_tree st = None \<or> (prefix ''/'' cwd \<and> wf_web st)"
    and opened: "files st zipf = Some (Archive [])"
    and ne: "zipf \<noteq> CONFIG_FILE" "zipf \<noteq> README_FILE" "zipf \<noteq> WEB_DIR"
  shows "archive_body cwd oc bin zipf st
         = (None, (if path_exists st WEB_DIR then (\<lambda>s. s) else log_msg WARNING WebMissing)
                    (st\<lparr>files := (files st)(zipf \<mapsto> Archive (archive_entries bin st))\<rparr>))"
proof -
  define es2 where "es2 = [bin] @ (if path_exists st CONFIG_FILE then [''config.yaml'']
                                   else [])"
  define es3 where "es3 = es2 @ (if path_exists st README_FILE then [''README.md''] else [])"
  define upd where "upd = (\<lambda>es. st\<lparr>files := (files st)(zipf \<mapsto> Archive es)\<rparr>)"
  have ex: "\<And>es p. p \<noteq> zipf \<Longrightarrow> path_exists (upd es) p = path_exists st p"
    unfolding upd_def by (rule path_exists_other)
  have fl: "\<And>es. files (upd es) zipf = Some (Archive es)" by (simp add: upd_def)
  have up: "\<And>es es'. (upd es)\<lparr>files := (files (upd es))(zipf \<mapsto> Archive es')\<rparr> = upd es'"
    by (simp add: upd_def)
  have "zf_write oc zipf bin bin st
        = (None, st\<lparr>files := (files st)(zipf \<mapsto> Archive ([] @ [bin]))\<rparr>)"
    using nf opened by (intro zf_write_ok) simp_all
  then have 1: "zf_write oc zipf bin bin st = (None, upd [bin])"
    by (simp add: upd_def)
  have 2: "(if path_exists (upd [bin]) CONFIG_FILE
            then zf_write oc zipf CONFIG_FILE ''config.yaml'' (upd [bin])
            else (None, upd [bin])) = (None, upd es2)"
  proof (cases "path_exists st CONFIG_FILE")
    case True
    have "zf_write oc zipf CONFIG_FILE ''config.yaml'' (upd [bin])
          = (None, (upd [bin])\<lparr>files := (files (upd [bin]))(zipf \<mapsto>
                                  Archive ([bin] @ [''config.yaml'']))\<rparr>)"
      using nf fl by (intro zf_write_ok) simp_all
    with True ne(1) show ?thesis by (simp add: ex up es2_def)
  next
    case False
    with ne(1) show ?thesis by (simp add: ex es2_def)
  qed
  have 3: "(if path_exists (upd es2) README_FILE
            then zf_write oc zipf README_FILE ''README.md'' (upd es2)
            else (None, upd es2)) = (None, upd es3)"
  proof (cases "path_exists st README_FILE")
    case True
    have "zf_write oc zipf README_FILE ''README.md'' (upd es2)
          = (None, (upd es2)\<lparr>files := (files (upd es2))(zipf \<mapsto>
                                Archive (es2 @ [''README.md'']))\<rparr>)"
      using nf fl by (intro zf_write_ok) simp_all
    with True ne(2) show ?thesis by (simp add: ex up es3_def)
  next
    case False
    with ne(2) show ?thesis by (simp add: ex es3_def)
  qed
  have ww: "walk_web (upd es3) = walk_web st" by (simp add: walk_web_def upd_def)
  have ae: "archive_entries bin st = es3 @ map (drop 3) (walk_paths st)"
    by (simp add: archive_entries_def es3_def es2_def)
  have 4: "(if path_exists (upd es3) WEB_DIR
            then write_walk cwd oc zipf (walk_web (upd es3)) (upd es3)
            else (None, log_msg WARNING WebMissing (upd es3)))
           = (None, (if path_exists st WEB_DIR then (\<lambda>s. s) else log_msg WARNING WebMissing)
                      (upd (archive_entries bin st)))"
  proof (cases "path_exists st WEB_DIR")
    case True
    have "write_walk cwd oc zipf (walk_web st) (upd es3)
          = (None, (upd es3)\<lparr>files := (files (upd es3))(zipf \<mapsto>
              Archive (es3 @ map (drop 3)
                (concat (map (\<lambda>(root, ds, fs). map (os_path_join root) fs) (walk_web st)))))\<rparr>)"
      using nf walk_web_relpath [OF web] fl by (rule write_walk_ok)
    with True ne(3) show ?thesis by (simp add: ex up ww ae walk_paths_def)
  next
    case False
    then have "web_tree st = None" by (simp add: path_exists_def)
    then have "walk_paths st = []" by (simp add: walk_paths_def walk_web_def)
    with False ne(3) show ?thesis by (simp add: ex ae)
  qed
  show ?thesis
    unfolding archive_body_def then_do_def 1 prod.case option.case 2 3 4
    by (simp add: upd_def)
qed


lemma archive_entries_cong:
  assumes "web_tree st' = web_tree st"
    and "path_exists st' CONFIG_FILE = path_exists st CONFIG_FILE"
    and "path_exists st' README_FILE = path_exists st README_FILE"
  shows "archive_entries bin st' = archive_entries bin st"
  using assms by (simp add: archive_entries_def walk_paths_def walk_web_def)

lemma make_archive_ok:
  assumes nf: "no_io_fault oc"
    and web: "web_tree st = None \<or> (prefix ''/'' cwd \<and> wf_web st)"
    and ne: "zipf \<noteq> CONFIG_FILE" "zipf \<noteq> README_FILE" "zipf \<noteq> WEB_DIR"
  shows "make_archive cwd oc bin zipf st
         = (None, (if path_exists st WEB_DIR then (\<lambda>s. s) else log_msg WARNING WebMissing)
                    (st\<lparr>files := (files st)(zipf \<mapsto> Archive (archive_entries bin st))\<rparr>))"
proof -
  define st1 where "st1 = st\<lparr>files := (files st)(zipf \<mapsto> Archive [])\<rparr>"
  have ex: "\<And>p. p \<noteq> zipf \<Longrightarrow> path_exists st1 p = path_exists st p"
    unfolding st1_def by (rule path_exists_other)
  have wt: "web_tree st1 = web_tree st" by (simp add: st1_def)
  have ae: "archive_entries bin st1 = archive_entries bin st"
    using wt ne by (intro archive_entries_cong) (simp_all add: ex)
  have "zf_open oc zipf st = (None, st1)"
    using nf by (simp add: zf_open_def no_io_fault_def st1_def)
  moreover have "archive_body cwd oc bin zipf st1
         = (None, (if path_exists st1 WEB_DIR then (\<lambda>s. s) else log_msg WARNING WebMissing)
                    (st1\<lparr>files := (files st1)(zipf \<mapsto> Archive (archive_entries bin st1))\<rparr>))"
    using nf web ne by (intro archive_body_ok) (simp_all add: no_io_fault_def st1_def wf_web_def)
  moreover have "st1\<lparr>files := (files st1)(zipf \<mapsto> Archive (archive_entries bin st))\<rparr>
                 = st\<lparr>files := (files st)(zipf \<mapsto> Archive (archive_entries bin st))\<rparr>"
    by (simp add: st1_def)
  moreover have "\<not> close_raises oc" using nf by (simp add: no_io_fault_def)
  ultimately show ?thesis
    using ne(3) by (simp add: make_archive_def ae ex)
qed

lemma fault_free_run:
  assumes go: "toolchain_status oc environ env = 0"
    and nf: "no_io_fault oc"
    and web: "web_tree st = None \<or> (prefix ''/'' cwd \<and> wf_web st)"
  shows "target_outcome args_upx cwd environ oc env st = None"
    and "files (build_target args_upx cwd environ oc env st) (zip_filename environ env)
         = Some (Archive (archive_entries (bin_filename environ env) st))"
    and "\<not> path_exists st WEB_DIR \<Longrightarrow>
         (WARNING, WebMissing) \<in> set (log (build_target args_upx cwd environ oc env st))"
proof -
  define bin where "bin = bin_filename environ env"
  define zipf where "zipf = zip_filename environ env"
  define st0 where "st0 = st\<lparr>log := log st @ [building_msg environ env]\<rparr>"
  define st2 where "st2 = built args_upx oc environ env st0"
  define st3 where "st3 = (if path_exists st WEB_DIR then (\<lambda>s. s)
                           else log_msg WARNING WebMissing)
                            (st2\<lparr>files := (files st2)(zipf \<mapsto>
                                   Archive (archive_entries bin st))\<rparr>)"
  have web2: "web_tree st2 = web_tree st"
    and other2: "\<And>p. p \<noteq> bin \<Longrightarrow> files st2 p = files st p"
    and bin2: "\<exists>c. files st2 bin = Some (Executable c)"
    unfolding st2_def bin_def by (simp_all add: built_frame st0_def)
  have nb: "bin \<noteq> CONFIG_FILE" "bin \<noteq> README_FILE" "bin \<noteq> WEB_DIR" "bin \<noteq> zipf"
    unfolding bin_def zipf_def by (simp_all add: bin_filename_not_input bin_filename_not_zip)
  have nz: "zipf \<noteq> CONFIG_FILE" "zipf \<noteq> README_FILE" "zipf \<noteq> WEB_DIR"
    unfolding zipf_def by (simp_all add: zip_filename_not_input)
  have ex: "\<And>p. p \<noteq> bin \<Longrightarrow> path_exists st2 p = path_exists st p"
    by (simp add: path_exists_def other2 web2)
  have ae: "archive_entries bin st2 = archive_entries bin st"
    using web2 nb by (intro archive_entries_cong) (simp_all add: ex)
  have "web_tree st2 = None \<or> (prefix ''/'' cwd \<and> wf_web st2)"
    using web web2 by (simp add: wf_web_def)
  with nf have "make_archive cwd oc bin zipf st2
         = (None, (if path_exists st2 WEB_DIR then (\<lambda>s. s) else log_msg WARNING WebMissing)
                    (st2\<lparr>files := (files st2)(zipf \<mapsto> Archive (archive_entries bin st2))\<rparr>))"
    using nz by (rule make_archive_ok)
  then have m: "make_archive cwd oc bin zipf st2 = (None, st3)"
    using nb(3) by (simp add: st3_def ae ex)
  have tb: "try_body args_upx cwd environ oc env st0
            = (None, log_msg INFO (Success zipf) (snd (cleanup bin st3)))"
    using try_body_built [OF go, of args_upx cwd st0]
    by (simp add: bin_def [symmetric] zipf_def [symmetric] st2_def [symmetric] m)
  then show "target_outcome args_upx cwd environ oc env st = None"
    by (simp add: target_outcome_def st0_def)
  from tb have res: "build_target args_upx cwd environ oc env st
                     = log_msg INFO (Success zipf) (snd (cleanup bin st3))"
    by (simp add: build_target_log st0_def [symmetric])
  have z3: "files st3 zipf = Some (Archive (archive_entries bin st))"
    by (simp add: st3_def log_msg_def)
  show "files (build_target args_upx cwd environ oc env st) (zip_filename environ env)
        = Some (Archive (archive_entries (bin_filename environ env) st))"
    unfolding res bin_def [symmetric] zipf_def [symmetric]
    using z3 nb(4) by (simp add: log_msg_def cleanup_def)
  show "(WARNING, WebMissing) \<in> set (log (build_target args_upx cwd environ oc env st))"
    if "\<not> path_exists st WEB_DIR"
    unfolding res using that by (simp add: log_msg_def cleanup_def st3_def)
qed

lemma walk_entries_web:
  assumes "prefix ''/'' cwd" and "wf_web st" and "p \<in> set (walk_paths st)"
  shows "p = ''../'' @ drop 3 p" and "prefix ''web/'' (drop 3 p)"
proof -
  from assms(2,3) obtain ns where "ns \<noteq> []" and "under_web p ns"
    by (blast dest: walk_paths_under_web)
  with assms(1) show "p = ''../'' @ drop 3 p"
    by (intro under_web_relpath(2))
  from assms(1) \<open>under_web p ns\<close> \<open>ns \<noteq> []\<close> show "prefix ''web/'' (drop 3 p)"
    by (rule under_web_relpath(3))
qed


lemma tools_ok_facts:
  "toolchain_status tools_ok Map.empty linux_target = 0" "no_io_fault tools_ok"
  by (simp_all add: toolchain_status_def no_io_fault_def tools_ok_def)

lemma bin_filename_plain:
  "bin_filename environ env \<noteq> ''config.yaml''" "\<not> prefix ''web'' (bin_filename environ env)"
  using bin_filename_cases [of environ env] by auto

text \<open>
  Claim C4.  When the configuration file does not exist, the toolchain succeeds and no
  input/output fault occurs (the asset directory being a well-formed tree and the working
  directory absolute), the target is processed without an exception, and the archive it
  leaves has no entry named \<open>config.yaml\<close> and has the binary as an entry.
\<close>

theorem archive_without_config:
  assumes "\<not> path_exists st CONFIG_FILE"
    and "toolchain_status oc environ env = 0" and "no_io_fault oc"
    and "prefix ''/'' cwd" and "wf_web st"
  shows "target_outcome args_upx cwd environ oc env st = None
         \<and> (\<exists>es. files (build_target args_upx cwd environ oc env st) (zip_filename environ env)
                     = Some (Archive es)
                   \<and> ''config.yaml'' \<notin> set es
                   \<and> bin_filename environ env \<in> set es)"
proof -
  have web: "web_tree st = None \<or> (prefix ''/'' cwd \<and> wf_web st)" using assms(4,5) by simp
  have "''config.yaml'' \<notin> set (map (drop 3) (walk_paths st))"
  proof
    assume "''config.yaml'' \<in> set (map (drop 3) (walk_paths st))"
    then obtain p where "p \<in> set (walk_paths st)" and "drop 3 p = ''config.yaml''" by auto
    with walk_entries_web(2) [OF assms(4,5)] have "prefix ''web/'' ''config.yaml''" by metis
    then show False by simp
  qed
  then have "''config.yaml'' \<notin> set (archive_entries (bin_filename environ env) st)"
    using assms(1) bin_filename_plain(1) [of environ env]
    by (simp add: archive_entries_def)
  moreover have "bin_filename environ env \<in> set (archive_entries (bin_filename environ env) st)"
    by (simp add: archive_entries_def)
  ultimately show ?thesis
    using fault_free_run(1,2) [OF assms(2,3) web] by simp
qed

theorem archive_without_config_witness:
  "\<not> path_exists no_config_state CONFIG_FILE
   \<and> toolchain_status tools_ok Map.empty linux_target = 0 \<and> no_io_fault tools_ok
   \<and> prefix ''/'' ''/srv/release'' \<and> wf_web no_config_state
   \<and> target_outcome False ''/srv/release'' Map.empty tools_ok linux_target no_config_state = None
   \<and> (\<exists>es. files (build_target False ''/srv/release'' Map.empty tools_ok linux_target
                      no_config_state) (zip_filename Map.empty linux_target)
               = Some (Archive es)
             \<and> ''config.yaml'' \<notin> set es
             \<and> bin_filename Map.empty linux_target \<in> set es)"
proof -
  have 1: "\<not> path_exists no_config_state CONFIG_FILE"
    by (simp add: path_exists_def no_config_state_def scenario_state_def CONFIG_FILE_def
        README_FILE_def WEB_DIR_def)
  have 2: "prefix ''/'' ''/srv/release''" by simp
  have 3: "wf_web no_config_state"
    by (simp add: wf_web_def no_config_state_def scenario_state_def valid_name_def)
  from archive_without_config [OF 1 tools_ok_facts 2 3, of False] 1 2 3 tools_ok_facts
  show ?thesis by simp
qed

text \<open>
  Claim C6.  When the toolchain succeeds and no input/output fault occurs (the asset
  directory being a well-formed tree and the working directory absolute), every file that
  the walk over the asset directory finds, at a path \<open>../r\<close>, is an entry \<open>r\<close> of the
  archive (its path relative to the project root, the parent of the working directory),
  and \<open>r\<close> begins with \<open>web/\<close>.  Without an asset directory the walk finds nothing.
\<close>

theorem web_assets_archived:
  assumes "toolchain_status oc environ env = 0" and "no_io_fault oc"
    and "prefix ''/'' cwd" and "wf_web st"
  shows "\<exists>es. files (build_target args_upx cwd environ oc env st) (zip_filename environ env)
                = Some (Archive es)
              \<and> (\<forall>p\<in>set (walk_paths st).
                    p = ''../'' @ drop 3 p \<and> prefix ''web/'' (drop 3 p) \<and> drop 3 p \<in> set es)"
proof -
  have web: "web_tree st = None \<or> (prefix ''/'' cwd \<and> wf_web st)" using assms(3,4) by simp
  have "\<forall>p\<in>set (walk_paths st).
          p = ''../'' @ drop 3 p \<and> prefix ''web/'' (drop 3 p)
          \<and> drop 3 p \<in> set (archive_entries (bin_filename environ env) st)"
    using walk_entries_web [OF assms(3,4)] by (simp add: archive_entries_def)
  with fault_free_run(2) [OF assms(1,2) web] show ?thesis by blast
qed

theorem web_assets_archived_witness:
  "toolchain_status tools_ok Map.empty linux_target = 0 \<and> no_io_fault tools_ok
   \<and> prefix ''/'' ''/srv/release'' \<and> wf_web scenario_state
   \<and> ''../web/css/style.css'' \<in> set (walk_paths scenario_state)
   \<and> (\<exists>es. files (build_target False ''/srv/release'' Map.empty tools_ok linux_target
                      scenario_state) (zip_filename Map.empty linux_target)
               = Some (Archive es)
             \<and> ''web/css/style.css'' \<in> set es)"
proof -
  have 2: "prefix ''/'' ''/srv/release''" by simp
  have 3: "wf_web scenario_state"
    by (simp add: wf_web_def scenario_state_def valid_name_def)
  have 4: "''../web/css/style.css'' \<in> set (walk_paths scenario_state)"
    by code_simp
  from web_assets_archived [OF tools_ok_facts 2 3, of False] obtain es
    where "files (build_target False ''/srv/release'' Map.empty tools_ok linux_target
                    scenario_state) (zip_filename Map.empty linux_target) = Some (Archive es)"
      and "\<forall>p\<in>set (walk_paths scenario_state). drop 3 p \<in> set es"
    by blast
  with 4 have "files (build_target False ''/srv/release'' Map.empty tools_ok linux_target
                    scenario_state) (zip_filename Map.empty linux_target) = Some (Archive es)
               \<and> drop 3 ''../web/css/style.css'' \<in> set es"
    by blast
  then have "\<exists>es. files (build_target False ''/srv/release'' Map.empty tools_ok linux_target
                      scenario_state) (zip_filename Map.empty linux_target)
               = Some (Archive es)
             \<and> ''web/css/style.css'' \<in> set es"
    by auto
  with tools_ok_facts 2 3 4 show ?thesis by simp
qed

lemma built_log:
  "\<exists>l. set l \<subseteq> {(INFO, Compressing), (ERROR, UpxFailed)}
       \<and> log (built args_upx oc environ env st) = log st @ l"
proof (cases args_upx)
  case False
  then have "log (built args_upx oc environ env st) = log st @ []"
    by (simp add: built_def upx_step_def)
  then show ?thesis by (metis empty_set empty_subsetI)
next
  case True
  show ?thesis
  proof (cases "check_call oc (upx_cmd (bin_filename environ env)) environ")
    case None
    with True have "log (built args_upx oc environ env st) = log st @ [(INFO, Compressing)]"
      by (simp add: built_def upx_step_def run_upx_def log_msg_def)
    moreover have "set [(INFO, Compressing)] \<subseteq> {(INFO, Compressing), (ERROR, UpxFailed)}"
      by simp
    ultimately show ?thesis by blast
  next
    case (Some e)
    with True have "log (built args_upx oc environ env st)
                    = log st @ [(INFO, Compressing), (ERROR, UpxFailed)]"
      by (simp add: built_def upx_step_def run_upx_def log_msg_def)
    moreover have "set [(INFO, Compressing), (ERROR, UpxFailed)]
                   \<subseteq> {(INFO, Compressing), (ERROR, UpxFailed)}"
      by simp
    ultimately show ?thesis by blast
  qed
qed

text \<open>The log of a run without faults.\<close>

lemma fault_free_log:
  assumes go: "toolchain_status oc environ env = 0"
    and nf: "no_io_fault oc"
    and web: "web_tree st = None \<or> (prefix ''/'' cwd \<and> wf_web st)"
  shows "\<exists>l. set l \<subseteq> {(INFO, Compressing), (ERROR, UpxFailed)}
           \<and> log (build_target args_upx cwd environ oc env st)
             = log st @ building_msg environ env # l
               @ (if path_exists st WEB_DIR then [] else [(WARNING, WebMissing)])
               @ [(INFO, Success (zip_filename environ env))]"
proof -
  define bin where "bin = bin_filename environ env"
  define zipf where "zipf = zip_filename environ env"
  define st0 where "st0 = st\<lparr>log := log st @ [building_msg environ env]\<rparr>"
  define st2 where "st2 = built args_upx oc environ env st0"
  define st3 where "st3 = (if path_exists st WEB_DIR then (\<lambda>s. s)
                           else log_msg WARNING WebMissing)
                            (st2\<lparr>files := (files st2)(zipf \<mapsto>
                                   Archive (archive_entries bin st))\<rparr>)"
  have web2: "web_tree st2 = web_tree st"
    and other2: "\<And>p. p \<noteq> bin \<Longrightarrow> files st2 p = files st p"
    unfolding st2_def bin_def by (simp_all add: built_frame st0_def)
  have nb: "bin \<noteq> CONFIG_FILE" "bin \<noteq> README_FILE" "bin \<noteq> WEB_DIR"
    unfolding bin_def by (simp_all add: bin_filename_not_input)
  have nz: "zipf \<noteq> CONFIG_FILE" "zipf \<noteq> README_FILE" "zipf \<noteq> WEB_DIR"
    unfolding zipf_def by (simp_all add: zip_filename_not_input)
  have ex: "\<And>p. p \<noteq> bin \<Longrightarrow> path_exists st2 p = path_exists st p"
    by (simp add: path_exists_def other2 web2)
  have ae: "archive_entries bin st2 = archive_entries bin st"
    using web2 nb by (intro archive_entries_cong) (simp_all add: ex)
  have "web_tree st2 = None \<or> (prefix ''/'' cwd \<and> wf_web st2)"
    using web web2 by (simp add: wf_web_def)
  with nf have "make_archive cwd oc bin zipf st2
         = (None, (if path_exists st2 WEB_DIR then (\<lambda>s. s) else log_msg WARNING WebMissing)
                    (st2\<lparr>files := (files st2)(zipf \<mapsto> Archive (archive_entries bin st2))\<rparr>))"
    using nz by (rule make_archive_ok)
  then have m: "make_archive cwd oc bin zipf st2 = (None, st3)"
    using nb(3) by (simp add: st3_def ae ex)
  have tb: "try_body args_upx cwd environ oc env st0
            = (None, log_msg INFO (Success zipf) (snd (cleanup bin st3)))"
    using try_body_built [OF go, of args_upx cwd st0]
    by (simp add: bin_def [symmetric] zipf_def [symmetric] st2_def [symmetric] m)
  then have res: "build_target args_upx cwd environ oc env st
                  = log_msg INFO (Success zipf) (snd (cleanup bin st3))"
    by (simp add: build_target_log st0_def [symmetric])
  from built_log [of args_upx oc environ env st0] obtain l
    where l: "set l \<subseteq> {(INFO, Compressing), (ERROR, UpxFailed)}"
      and l2: "log st2 = log st0 @ l"
    unfolding st2_def by blast
  have "log (build_target args_upx cwd environ oc env st)
        = log st3 @ [(INFO, Success zipf)]"
    unfolding res by (simp add: log_msg_def cleanup_def)
  also have "log st3 = log st2 @ (if path_exists st WEB_DIR then [] else [(WARNING, WebMissing)])"
    by (simp add: st3_def log_msg_def)
  finally have "log (build_target args_upx cwd environ oc env st)
             = log st @ building_msg environ env # l
               @ (if path_exists st WEB_DIR then [] else [(WARNING, WebMissing)])
               @ [(INFO, Success (zip_filename environ env))]"
    by (simp add: l2 st0_def zipf_def)
  with l show ?thesis by blast
qed

text \<open>
  Claim C7, as amended.  When the asset directory does not exist, the toolchain succeeds
  and no input/output fault occurs, the target is processed without an exception and the
  archive is produced, holding the binary, then \<open>config.yaml\<close> and \<open>README.md\<close> when
  these files exist, and nothing else, so that no entry begins with \<open>web\<close>.  The run
  records the warning exactly when nothing at all exists at the path of the asset
  directory: the source tests \<^verbatim>\<open>os.path.exists\<close>, so a file that is not a directory
  there keeps the warning away.
\<close>

theorem archive_without_web:
  assumes "web_tree st = None"
    and "toolchain_status oc environ env = 0" and "no_io_fault oc"
  shows "target_outcome args_upx cwd environ oc env st = None
         \<and> files (build_target args_upx cwd environ oc env st) (zip_filename environ env)
           = Some (Archive ([bin_filename environ env]
                            @ (if path_exists st CONFIG_FILE then [''config.yaml''] else [])
                            @ (if path_exists st README_FILE then [''README.md''] else [])))
         \<and> (\<exists>es. files (build_target args_upx cwd environ oc env st) (zip_filename environ env)
                     = Some (Archive es)
                   \<and> (\<forall>e\<in>set es. \<not> prefix ''web'' e))
         \<and> ((WARNING, WebMissing)
               \<in> set (drop (length (log st)) (log (build_target args_upx cwd environ oc env st)))
             \<longleftrightarrow> \<not> path_exists st WEB_DIR)"
proof -
  from assms(1) have web: "web_tree st = None \<or> (prefix ''/'' cwd \<and> wf_web st)" by simp
  from assms(1) have "walk_paths st = []" by (simp add: walk_paths_def walk_web_def)
  then have ae: "archive_entries (bin_filename environ env) st
                 = [bin_filename environ env]
                   @ (if path_exists st CONFIG_FILE then [''config.yaml''] else [])
                   @ (if path_exists st README_FILE then [''README.md''] else [])"
    by (simp add: archive_entries_def)
  have nw: "\<forall>e\<in>set (archive_entries (bin_filename environ env) st). \<not> prefix ''web'' e"
    unfolding ae using bin_filename_plain(2) [of environ env] by auto
  from fault_free_log [OF assms(2,3) web, of args_upx] obtain l
    where l: "set l \<subseteq> {(INFO, Compressing), (ERROR, UpxFailed)}"
      and lg: "log (build_target args_upx cwd environ oc env st)
               = log st @ building_msg environ env # l
                 @ (if path_exists st WEB_DIR then [] else [(WARNING, WebMissing)])
                 @ [(INFO, Success (zip_filename environ env))]"
    by blast
  from l have nl: "(WARNING, WebMissing) \<notin> set l" by auto
  have "(WARNING, WebMissing)
          \<in> set (drop (length (log st)) (log (build_target args_upx cwd environ oc env st)))
        \<longleftrightarrow> \<not> path_exists st WEB_DIR"
    unfolding lg using nl by (simp add: building_msg_def)
  moreover have "target_outcome args_upx cwd environ oc env st = None"
    using assms(2,3) web by (rule fault_free_run(1))
  moreover have f: "files (build_target args_upx cwd environ oc env st) (zip_filename environ env)
                    = Some (Archive (archive_entries (bin_filename environ env) st))"
    using assms(2,3) web by (rule fault_free_run(2))
  moreover from f nw
  have "\<exists>es. files (build_target args_upx cwd environ oc env st) (zip_filename environ env)
                = Some (Archive es)
              \<and> (\<forall>e\<in>set es. \<not> prefix ''web'' e)"
    by blast
  ultimately show ?thesis unfolding ae by blast
qed

theorem archive_without_web_witness:
  "web_tree no_web_state = None \<and> \<not> path_exists no_web_state WEB_DIR
   \<and> toolchain_status tools_ok Map.empty linux_target = 0 \<and> no_io_fault tools_ok
   \<and> target_outcome True ''/srv/release'' Map.empty tools_ok linux_target no_web_state = None
   \<and> files (build_target True ''/srv/release'' Map.empty tools_ok linux_target no_web_state)
       (zip_filename Map.empty linux_target)
     = Some (Archive [bin_filename Map.empty linux_target, ''config.yaml'', ''README.md''])
   \<and> (WARNING, WebMissing)
       \<in> set (drop (length (log no_web_state))
                 (log (build_target True ''/srv/release'' Map.empty tools_ok linux_target
                         no_web_state)))"
proof -
  have 0: "web_tree no_web_state = None" by (simp add: no_web_state_def)
  have 1: "\<not> path_exists no_web_state WEB_DIR"
    by (simp add: path_exists_def no_web_state_def scenario_state_def CONFIG_FILE_def
        README_FILE_def WEB_DIR_def)
  have 2: "path_exists no_web_state CONFIG_FILE \<and> path_exists no_web_state README_FILE"
    by (simp add: path_exists_def no_web_state_def scenario_state_def CONFIG_FILE_def
        README_FILE_def WEB_DIR_def)
  from archive_without_web [OF 0 tools_ok_facts, of True "''/srv/release''"] 0 1 2
    tools_ok_facts
  show ?thesis by simp
qed

text \<open>
  The claim as stated fails when a regular file stands where the asset directory should
  be: there is no asset directory, the archive is produced without assets, and no warning
  is recorded.
\<close>

theorem no_warning_when_web_is_file:
  "web_tree web_is_file_state = None
   \<and> toolchain_status tools_ok Map.empty linux_target = 0
   \<and> target_outcome False ''/srv/release'' Map.empty tools_ok linux_target web_is_file_state
     = None
   \<and> files (build_target False ''/srv/release'' Map.empty tools_ok linux_target
               web_is_file_state) ''mosdns-log-linux-amd64-v3.zip''
     = Some (Archive [''mosdns-log'', ''config.yaml'', ''README.md''])
   \<and> log (build_target False ''/srv/release'' Map.empty tools_ok linux_target
             web_is_file_state)
     = [(INFO, Building ''mosdns-log-linux-amd64-v3.zip'' (Some ''linux'') (Some ''amd64'')),
        (INFO, Success ''mosdns-log-linux-amd64-v3.zip'')]
   \<and> (WARNING, WebMissing)
       \<notin> set (log (build_target False ''/srv/release'' Map.empty tools_ok linux_target
                      web_is_file_state))"
  by code_simp

section \<open>The optional compressor\<close>

lemma with_log_with_log: "with_log l (with_log l' r) = with_log (l @ l') r"
  by (simp add: with_log_def)

lemma log_agnosticD: "log_agnostic f \<Longrightarrow> f st = with_log (log st) (f (st\<lparr>log := []\<rparr>))"
  unfolding log_agnostic_def by (erule spec)

lemma with_log_pair: "with_log l (r, s) = (r, s\<lparr>log := l @ log s\<rparr>)"
  by (simp add: with_log_def)

lemma log_agnostic_then_do:
  assumes "log_agnostic f" and "log_agnostic g"
  shows "log_agnostic (then_do f g)"
  unfolding log_agnostic_def
proof
  fix st :: state
  define st0 where "st0 = st\<lparr>log := []\<rparr>"
  obtain r s where fs: "f st0 = (r, s)" by (cases "f st0")
  have "f st = with_log (log st) (f st0)"
    unfolding st0_def by (rule log_agnosticD [OF assms(1)])
  then have f: "f st = (r, s\<lparr>log := log st @ log s\<rparr>)"
    unfolding fs with_log_pair .
  show "then_do f g st = with_log (log st) (then_do f g (st\<lparr>log := []\<rparr>))"
  proof (cases r)
    case (Some e)
    have "then_do f g st = (Some e, s\<lparr>log := log st @ log s\<rparr>)"
      unfolding then_do_def f Some by simp
    moreover have "then_do f g st0 = (Some e, s)"
      unfolding then_do_def fs Some by simp
    ultimately show ?thesis unfolding st0_def [symmetric] by (simp only: with_log_pair)
  next
    case None
    define s0 where "s0 = s\<lparr>log := []\<rparr>"
    have "g (s\<lparr>log := log st @ log s\<rparr>)
          = with_log (log (s\<lparr>log := log st @ log s\<rparr>)) (g ((s\<lparr>log := log st @ log s\<rparr>)\<lparr>log := []\<rparr>))"
      by (rule log_agnosticD [OF assms(2)])
    moreover have "(s\<lparr>log := log st @ log s\<rparr>)\<lparr>log := []\<rparr> = s0" by (simp add: s0_def)
    moreover have "log (s\<lparr>log := log st @ log s\<rparr>) = log st @ log s" by simp
    ultimately have 1: "g (s\<lparr>log := log st @ log s\<rparr>) = with_log (log st @ log s) (g s0)"
      by (simp only:)
    have 2: "g s = with_log (log s) (g s0)"
      unfolding s0_def by (rule log_agnosticD [OF assms(2)])
    have "then_do f g st = g (s\<lparr>log := log st @ log s\<rparr>)"
      unfolding then_do_def f None by simp
    moreover have "then_do f g st0 = g s"
      unfolding then_do_def fs None by simp
    ultimately show ?thesis
      unfolding st0_def [symmetric] by (simp only: 1 2 with_log_with_log)
  qed
qed


lemma log_agnostic_if_exists:
  assumes "log_agnostic f" and "log_agnostic g"
  shows "log_agnostic (\<lambda>st. if path_exists st p then f st else g st)"
  unfolding log_agnostic_def
proof
  fix st :: state
  have "path_exists (st\<lparr>log := []\<rparr>) p = path_exists st p" by (simp add: path_exists_def)
  then show "(if path_exists st p then f st else g st) =
        with_log (log st)
          (if path_exists (st\<lparr>log := []\<rparr>) p then f (st\<lparr>log := []\<rparr>)
           else g (st\<lparr>log := []\<rparr>))"
    using log_agnosticD [OF assms(1), of st] log_agnosticD [OF assms(2), of st]
    by (simp only: if_distrib [of "with_log (log st)"] split: if_splits)
qed

lemma log_agnostic_skip: "log_agnostic (\<lambda>st. (r, st))"
  by (simp add: log_agnostic_def with_log_def)

lemma log_agnostic_log_msg: "log_agnostic (\<lambda>st. (r, log_msg lvl m st))"
  by (simp add: log_agnostic_def with_log_def log_msg_def)

lemma log_agnostic_zf_write: "log_agnostic (zf_write oc zipf path arcname)"
  by (simp add: log_agnostic_def with_log_def zf_write_def zf_entries_def)

lemma log_agnostic_cleanup: "log_agnostic (cleanup bin)"
  by (simp add: log_agnostic_def with_log_def cleanup_def path_exists_def fun_upd_idem)

lemma log_agnostic_write_files: "log_agnostic (write_files cwd oc zipf root fs)"
proof (induction fs)
  case Nil
  have "write_files cwd oc zipf root [] = (\<lambda>st. (None, st))" by (rule ext) simp
  then show ?case by (simp only: log_agnostic_skip)
next
  case (Cons f fs)
  show ?case
  proof (cases "relpath cwd (os_path_join root f) ''..''")
    case (Inl e)
    then have "write_files cwd oc zipf root (f # fs) = (\<lambda>st. (Some e, st))"
      by (intro ext) simp
    then show ?thesis by (simp only: log_agnostic_skip)
  next
    case (Inr a)
    then have "write_files cwd oc zipf root (f # fs)
               = then_do (zf_write oc zipf (os_path_join root f) a)
                         (write_files cwd oc zipf root fs)"
      by (intro ext) simp
    then show ?thesis
      by (simp only: log_agnostic_then_do log_agnostic_zf_write Cons.IH)
  qed
qed

lemma log_agnostic_write_walk: "log_agnostic (write_walk cwd oc zipf ts)"
proof (induction ts)
  case Nil
  have "write_walk cwd oc zipf [] = (\<lambda>st. (None, st))" by (rule ext) simp
  then show ?case by (simp only: log_agnostic_skip)
next
  case (Cons t ts)
  obtain root ds fs where t: "t = (root, ds, fs)" by (cases t)
  have "write_walk cwd oc zipf (t # ts)
        = then_do (write_files cwd oc zipf root fs) (write_walk cwd oc zipf ts)"
    by (intro ext) (simp add: t)
  then show ?case
    by (simp only: log_agnostic_then_do log_agnostic_write_files Cons.IH)
qed

lemma log_agnostic_walk: "log_agnostic (\<lambda>st. write_walk cwd oc zipf (walk_web st) st)"
  unfolding log_agnostic_def
proof
  fix st :: state
  have "walk_web (st\<lparr>log := []\<rparr>) = walk_web st" by (simp add: walk_web_def)
  then show "write_walk cwd oc zipf (walk_web st) st =
        with_log (log st) (write_walk cwd oc zipf (walk_web (st\<lparr>log := []\<rparr>)) (st\<lparr>log := []\<rparr>))"
    using log_agnosticD [OF log_agnostic_write_walk, of cwd oc zipf "walk_web st" st] by simp
qed

lemma log_agnostic_archive_body: "log_agnostic (archive_body cwd oc bin zipf)"
  unfolding archive_body_def
  by (intro log_agnostic_then_do log_agnostic_if_exists log_agnostic_zf_write
      log_agnostic_skip log_agnostic_walk log_agnostic_log_msg)

lemma log_agnostic_zf_open: "log_agnostic (zf_open oc zipf)"
  by (simp add: log_agnostic_def with_log_def zf_open_def)

lemma log_agnostic_closing:
  assumes "log_agnostic f"
  shows "log_agnostic (\<lambda>st. case f st of (r, s) \<Rightarrow> (if c then Some OSError else r, s))"
  unfolding log_agnostic_def
proof
  fix st :: state
  obtain r s where fs: "f (st\<lparr>log := []\<rparr>) = (r, s)" by (cases "f (st\<lparr>log := []\<rparr>)")
  then have "f st = (r, s\<lparr>log := log st @ log s\<rparr>)"
    using log_agnosticD [OF assms, of st] by (simp add: with_log_def)
  with fs show "(case f st of (r, s) \<Rightarrow> (if c then Some OSError else r, s)) =
        with_log (log st)
          (case f (st\<lparr>log := []\<rparr>) of (r, s) \<Rightarrow> (if c then Some OSError else r, s))"
    by (simp add: with_log_def)
qed

lemma make_archive_then_do:
  "make_archive cwd oc bin zipf
   = then_do (zf_open oc zipf)
       (\<lambda>st. case archive_body cwd oc bin zipf st of
                (r, s) \<Rightarrow> (if close_raises oc then Some OSError else r, s))"
  by (intro ext) (simp add: make_archive_def then_do_def split: prod.splits option.splits)

lemma log_agnostic_make_archive: "log_agnostic (make_archive cwd oc bin zipf)"
  unfolding make_archive_then_do
  by (intro log_agnostic_then_do log_agnostic_zf_open log_agnostic_closing
      log_agnostic_archive_body)

lemma log_agnostic_rest:
  "log_agnostic (then_do (make_archive cwd oc bin zipf)
                  (then_do (cleanup bin) (\<lambda>st. (None, log_msg INFO (Success zipf) st))))"
  by (intro log_agnostic_then_do log_agnostic_make_archive log_agnostic_cleanup
      log_agnostic_log_msg)


lemma try_body_rest:
  assumes "toolchain_status oc environ env = 0"
  shows "try_body args_upx cwd environ oc env st
         = then_do (make_archive cwd oc (bin_filename environ env) (zip_filename environ env))
             (then_do (cleanup (bin_filename environ env))
                (\<lambda>st. (None, log_msg INFO (Success (zip_filename environ env)) st)))
             (built args_upx oc environ env st)"
proof -
  define bin where "bin = bin_filename environ env"
  have "run_go oc (target_env environ env) bin st
        = (None, st\<lparr>files := (files st)(bin \<mapsto> Executable False)\<rparr>)"
    using assms(1) by (simp add: run_go_def check_call_def toolchain_status_def bin_def)
  moreover have "upx_step args_upx oc environ bin
                   (st\<lparr>files := (files st)(bin \<mapsto> Executable False)\<rparr>)
                 = (None, built args_upx oc environ env st)"
    using upx_step_fst [of args_upx oc environ bin]
    by (simp add: built_def prod_eq_iff bin_def)
  ultimately show ?thesis
    by (simp add: try_body_def Let_def then_do_def bin_def [symmetric])
qed

lemma built_without_upx:
  "built False oc environ env st
   = st\<lparr>files := (files st)(bin_filename environ env \<mapsto> Executable False)\<rparr>"
  by (simp add: built_def upx_step_def)

lemma built_upx_failed:
  assumes "compressor_status oc environ env \<noteq> 0"
  shows "built True oc environ env st
         = st\<lparr>files := (files st)(bin_filename environ env \<mapsto> Executable False),
               log := log st @ [(INFO, Compressing), (ERROR, UpxFailed)]\<rparr>"
  using assms
  by (simp add: built_def upx_step_def run_upx_def check_call_def compressor_status_def
      log_msg_def)

lemma handler_appends:
  "\<exists>hm. \<forall>s. (case (r, s) of
                 (None, st') \<Rightarrow> st'
               | (Some (CalledProcessError rc), st') \<Rightarrow>
                   log_msg ERROR (BuildFailed (CalledProcessError rc)) st'
               | (Some e, st') \<Rightarrow> log_msg ERROR (UnknownError e) st')
              = s\<lparr>log := log s @ hm\<rparr>"
proof (cases r)
  case None
  then have "\<forall>s. (case (r, s) of
                 (None, st') \<Rightarrow> st'
               | (Some (CalledProcessError rc), st') \<Rightarrow>
                   log_msg ERROR (BuildFailed (CalledProcessError rc)) st'
               | (Some e, st') \<Rightarrow> log_msg ERROR (UnknownError e) st')
              = s\<lparr>log := log s @ []\<rparr>" by simp
  then show ?thesis ..
next
  case (Some e)
  show ?thesis
  proof (cases e)
    case (CalledProcessError rc)
    with Some have "\<forall>s. (case (r, s) of
                 (None, st') \<Rightarrow> st'
               | (Some (CalledProcessError rc), st') \<Rightarrow>
                   log_msg ERROR (BuildFailed (CalledProcessError rc)) st'
               | (Some e, st') \<Rightarrow> log_msg ERROR (UnknownError e) st')
              = s\<lparr>log := log s @ [(ERROR, BuildFailed (CalledProcessError rc))]\<rparr>"
      by (simp add: log_msg_def)
    then show ?thesis ..
  next
    case OSError
    with Some have "\<forall>s. (case (r, s) of
                 (None, st') \<Rightarrow> st'
               | (Some (CalledProcessError rc), st') \<Rightarrow>
                   log_msg ERROR (BuildFailed (CalledProcessError rc)) st'
               | (Some e, st') \<Rightarrow> log_msg ERROR (UnknownError e) st')
              = s\<lparr>log := log s @ [(ERROR, UnknownError e)]\<rparr>"
      by (simp add: log_msg_def)
    then show ?thesis ..
  next
    case ValueError
    with Some have "\<forall>s. (case (r, s) of
                 (None, st') \<Rightarrow> st'
               | (Some (CalledProcessError rc), st') \<Rightarrow>
                   log_msg ERROR (BuildFailed (CalledProcessError rc)) st'
               | (Some e, st') \<Rightarrow> log_msg ERROR (UnknownError e) st')
              = s\<lparr>log := log s @ [(ERROR, UnknownError e)]\<rparr>"
      by (simp add: log_msg_def)
    then show ?thesis ..
  qed
qed

text \<open>
  Claim C8.  When the toolchain succeeds, the UPX step is enabled and UPX exits with a
  non-zero status (127 when it is not installed), the target is processed as without the
  UPX step: the same exception, if any, reaches the handlers, the files left on disk,
  the archive and its entries among them, are the same, and the log is the log of the run
  without UPX with the two UPX records, the second an error, after the line that announces
  the target.  When moreover no input/output fault occurs, the archive is there, with the
  entries of a run without faults.
\<close>

theorem compressor_failure_skipped:
  assumes "toolchain_status oc environ env = 0"
    and "compressor_status oc environ env \<noteq> 0"
  shows "target_outcome True cwd environ oc env st = target_outcome False cwd environ oc env st
         \<and> files (build_target True cwd environ oc env st)
           = files (build_target False cwd environ oc env st)
         \<and> (\<exists>tail. log (build_target False cwd environ oc env st)
                       = log st @ building_msg environ env # tail
                     \<and> log (build_target True cwd environ oc env st)
                       = log st @ building_msg environ env
                           # (INFO, Compressing) # (ERROR, UpxFailed) # tail)
         \<and> (no_io_fault oc \<and> (web_tree st = None \<or> (prefix ''/'' cwd \<and> wf_web st)) \<longrightarrow>
              files (build_target True cwd environ oc env st) (zip_filename environ env)
              = Some (Archive (archive_entries (bin_filename environ env) st)))"
proof -
  define bin where "bin = bin_filename environ env"
  define rest where "rest = then_do (make_archive cwd oc bin (zip_filename environ env))
             (then_do (cleanup bin)
                (\<lambda>st. (None, log_msg INFO (Success (zip_filename environ env)) st)))"
  define st0 where "st0 = st\<lparr>log := log st @ [building_msg environ env]\<rparr>"
  define base where "base = st\<lparr>files := (files st)(bin \<mapsto> Executable False), log := []\<rparr>"
  obtain r s where rs: "rest base = (r, s)" by (cases "rest base")
  have ag: "log_agnostic rest" unfolding rest_def by (rule log_agnostic_rest)
  have F: "try_body False cwd environ oc env st0
           = (r, s\<lparr>log := (log st @ [building_msg environ env]) @ log s\<rparr>)"
    unfolding try_body_rest [OF assms(1)] bin_def [symmetric] rest_def [symmetric]
      built_without_upx
    using log_agnosticD [OF ag, of "st0\<lparr>files := (files st0)(bin \<mapsto> Executable False)\<rparr>"]
    by (simp add: st0_def base_def [symmetric] rs with_log_def bin_def [symmetric])
  have T: "try_body True cwd environ oc env st0
           = (r, s\<lparr>log := (log st @ [building_msg environ env, (INFO, Compressing),
                                        (ERROR, UpxFailed)]) @ log s\<rparr>)"
    unfolding try_body_rest [OF assms(1)] bin_def [symmetric] rest_def [symmetric]
      built_upx_failed [OF assms(2)]
    using log_agnosticD [OF ag, of "st0\<lparr>files := (files st0)(bin \<mapsto> Executable False),
               log := log st0 @ [(INFO, Compressing), (ERROR, UpxFailed)]\<rparr>"]
    by (simp add: st0_def base_def [symmetric] rs with_log_def bin_def [symmetric])
  from handler_appends [of r] obtain hm where
    hm: "\<And>s. (case (r, s) of
                 (None, st') \<Rightarrow> st'
               | (Some (CalledProcessError rc), st') \<Rightarrow>
                   log_msg ERROR (BuildFailed (CalledProcessError rc)) st'
               | (Some e, st') \<Rightarrow> log_msg ERROR (UnknownError e) st')
              = s\<lparr>log := log s @ hm\<rparr>"
    by blast
  have bF: "build_target False cwd environ oc env st
            = s\<lparr>log := (log st @ [building_msg environ env]) @ log s @ hm\<rparr>"
    unfolding build_target_log st0_def [symmetric] F hm by simp
  have bT: "build_target True cwd environ oc env st
            = s\<lparr>log := (log st @ [building_msg environ env, (INFO, Compressing),
                                    (ERROR, UpxFailed)]) @ log s @ hm\<rparr>"
    unfolding build_target_log st0_def [symmetric] T hm by simp
  have "target_outcome True cwd environ oc env st = target_outcome False cwd environ oc env st"
    unfolding target_outcome_def st0_def [symmetric] F T by simp
  moreover have "files (build_target True cwd environ oc env st)
                 = files (build_target False cwd environ oc env st)"
    unfolding bF bT by simp
  moreover have "log (build_target False cwd environ oc env st)
                   = log st @ building_msg environ env # (log s @ hm)
                 \<and> log (build_target True cwd environ oc env st)
                   = log st @ building_msg environ env
                       # (INFO, Compressing) # (ERROR, UpxFailed) # (log s @ hm)"
    unfolding bF bT by simp
  moreover have "no_io_fault oc \<and> (web_tree st = None \<or> (prefix ''/'' cwd \<and> wf_web st)) \<longrightarrow>
              files (build_target True cwd environ oc env st) (zip_filename environ env)
              = Some (Archive (archive_entries (bin_filename environ env) st))"
    using fault_free_run(2) [OF assms(1)] by blast
  ultimately show ?thesis by blast
qed

theorem compressor_failure_skipped_witness:
  "toolchain_status upx_missing Map.empty linux_target = 0
   \<and> compressor_status upx_missing Map.empty linux_target = 127
   \<and> files (build_target True ''/srv/release'' Map.empty upx_missing linux_target scenario_state)
     = files (build_target False ''/srv/release'' Map.empty upx_missing linux_target
                scenario_state)
   \<and> target_outcome True ''/srv/release'' Map.empty upx_missing linux_target scenario_state
     = None
   \<and> files (build_target True ''/srv/release'' Map.empty upx_missing linux_target scenario_state)
       (zip_filename Map.empty linux_target)
     = Some (Archive (archive_entries (bin_filename Map.empty linux_target) scenario_state))"
proof -
  have 1: "toolchain_status upx_missing Map.empty linux_target = 0"
    by (simp add: toolchain_status_def upx_missing_def tools_ok_def go_cmd_def upx_cmd_def)
  have 2: "compressor_status upx_missing Map.empty linux_target = 127"
    by (simp add: compressor_status_def upx_missing_def tools_ok_def bin_filename_def
        target_env_def linux_target_def)
  then have 3: "compressor_status upx_missing Map.empty linux_target \<noteq> 0" by simp
  have 4: "target_outcome False ''/srv/release'' Map.empty upx_missing linux_target
             scenario_state = None"
    by code_simp
  have 5: "no_io_fault upx_missing" by (simp add: no_io_fault_def upx_missing_def tools_ok_def)
  have 6: "prefix ''/'' ''/srv/release'' \<and> wf_web scenario_state"
    by (simp add: wf_web_def scenario_state_def valid_name_def)
  from compressor_failure_skipped [OF 1 3, of "''/srv/release''" scenario_state] 5 6
  have "files (build_target True ''/srv/release'' Map.empty upx_missing linux_target
                 scenario_state)
        = files (build_target False ''/srv/release'' Map.empty upx_missing linux_target
                   scenario_state)"
    and "target_outcome True ''/srv/release'' Map.empty upx_missing linux_target scenario_state
         = target_outcome False ''/srv/release'' Map.empty upx_missing linux_target
             scenario_state"
    and "files (build_target True ''/srv/release'' Map.empty upx_missing linux_target
                  scenario_state) (zip_filename Map.empty linux_target)
         = Some (Archive (archive_entries (bin_filename Map.empty linux_target)
                            scenario_state))"
    by blast+
  with 1 2 4 show ?thesis by metis
qed

section \<open>The end-to-end scenarios\<close>

text \<open>
  The three end-to-end scenarios of the specification, run on the model: a complete run,
  a failing toolchain, and UPX enabled but not installed.
\<close>

lemma scenario_complete_run:
  "files (go_build False ''/srv/release'' Map.empty (\<lambda>i. tools_ok) scenario_state)
     ''mosdns-log-linux-amd64-v3.zip''
   = Some (Archive [''mosdns-log'', ''config.yaml'', ''README.md'', ''web/index.html'',
                    ''web/css/style.css''])"
  "files (go_build False ''/srv/release'' Map.empty (\<lambda>i. tools_ok) scenario_state)
     ''mosdns-log'' = None"
  "log (go_build False ''/srv/release'' Map.empty (\<lambda>i. tools_ok) scenario_state)
   = [(INFO, Start),
      (INFO, Building ''mosdns-log-linux-amd64-v3.zip'' (Some ''linux'') (Some ''amd64'')),
      (INFO, Success ''mosdns-log-linux-amd64-v3.zip'')]"
  by code_simp+

lemma scenario_toolchain_fails:
  "files (go_build False ''/srv/release'' Map.empty (\<lambda>i. toolchain_fails) scenario_state)
     ''mosdns-log-linux-amd64-v3.zip'' = None"
  "log (go_build False ''/srv/release'' Map.empty (\<lambda>i. toolchain_fails) scenario_state)
   = [(INFO, Start),
      (INFO, Building ''mosdns-log-linux-amd64-v3.zip'' (Some ''linux'') (Some ''amd64'')),
      (ERROR, BuildFailed (CalledProcessError 2))]"
  by code_simp+

lemma scenario_upx_missing:
  "files (go_build True ''/srv/release'' Map.empty (\<lambda>i. upx_missing) scenario_state)
     ''mosdns-log-linux-amd64-v3.zip''
   = Some (Archive [''mosdns-log'', ''config.yaml'', ''README.md'', ''web/index.html'',
                    ''web/css/style.css''])"
  "log (go_build True ''/srv/release'' Map.empty (\<lambda>i. upx_missing) scenario_state)
   = [(INFO, Start),
      (INFO, Building ''mosdns-log-linux-amd64-v3.zip'' (Some ''linux'') (Some ''amd64'')),
      (INFO, Compressing), (ERROR, UpxFailed),
      (INFO, Success ''mosdns-log-linux-amd64-v3.zip'')]"
  by code_simp+

end
